theory Spec2Isabelle
  imports Complex_Main "HOL-Library.Code_Target_Nat"
begin

section \<open>Data model of the reactivity core\<close>

text \<open>
  Objects are identified by a kind and an address. \<open>isArray\<close> and \<open>isMap\<close> of the
  shared helpers only look at the kind. A ref cell and a computed cell are targets of their
  own (\<open>toRaw(this)\<close> is the cell), neither an array nor a map.
\<close>

datatype tkind = PlainObject | ArrayObject | MapObject | RefObject | ComputedObject

datatype target = Target (kind: tkind) (addr: nat)

definition isArray :: "target \<Rightarrow> bool" where
  "isArray t = (kind t = ArrayObject)"

definition isMap :: "target \<Rightarrow> bool" where
  "isMap t = (kind t = MapObject)"

text \<open>A property key is a string or a symbol; the two reserved keys are symbols.\<close>

datatype key = KStr string | KSym nat

definition ITERATE_KEY :: key where
  "ITERATE_KEY = KSym 0"

definition MAP_KEY_ITERATE_KEY :: key where
  "MAP_KEY_ITERATE_KEY = KSym 1"

datatype TrackOpTypes = GET | HAS | ITERATE

datatype TriggerOpTypes = SET | ADD | DELETE | CLEAR

text \<open>
  A finite number other than the negative zero is given by its value, a rational (array
  lengths, indices and the doubles that keys convert to); the three non-finite doubles
  and the negative zero are values of their own, so that equality of the datatype is the
  \<open>SameValue\<close> comparison of \<open>Object.is\<close>.

  A value is a primitive, an object (\<open>VObj\<close>), the reactive proxy of an object, a readonly
  proxy, a \<open>RefImpl\<close> cell, or an array given by its identity and its elements; two arrays
  with different identities are different objects, whatever they hold.
\<close>

datatype jsnum = NaN | Fin rat | NegZero | PosInf | NegInf

datatype val =
    VUndef
  | VNull
  | VBool bool
  | VNum jsnum
  | VStr string
  | VObj target
  | VReactive target
  | VReadonly val
  | VRef nat
  | VArray nat "val list"

text \<open>What a \<open>return\<close> statement of user code returns: a value, or the value read from a computed cell.\<close>

datatype rexpr = Lit val | ComputedValue nat

text \<open>
  User code (the function wrapped by an effect, a scheduler, an \<open>onStop\<close> hook) is a list
  of calls into the exported interface of the effect module. An effect is referred to by
  its \<open>id\<close>, a computed cell by its index. \<open>Effect fn lazy scheduler onStop allowRecurse\<close>
  is \<open>effect(fn, options)\<close> for a function \<open>fn\<close> that is not itself an effect.
\<close>

text \<open>
  Modelled from the spec: \<open>callWithErrorHandling\<close> of the error-handling facade, which is
  not part of the sources ("invoke user callbacks with an error-code tag; propagate to the
  host error boundary"). \<open>Guarded fn\<close> calls \<open>fn\<close>; an error thrown by \<open>fn\<close> goes to the
  error boundary and the caller goes on.
\<close>

datatype cmd =
    Track target TrackOpTypes key
  | Trigger target TriggerOpTypes "key option" val
  | Invoke nat
  | Stop nat
  | PauseTracking
  | EnableTracking
  | ResetTracking
  | Throw
  | Return rexpr
  | Effect "cmd list" bool "sched option" "cmd list option" bool
  | Guarded "cmd list"
and sched =
    SchedUser "cmd list"
  | SchedComputed nat

text \<open>
  \<open>ReactiveEffect\<close> with its options. The \<open>id\<close> of an effect is its index in the list
  of effects of the state (\<open>uid\<close> is the length of that list). \<open>deps\<close> holds references to
  \<open>Dep\<close> sets; a \<open>Dep\<close> is never removed from its \<open>KeyToDepMap\<close>, so it is named by the
  target and the key it is stored under. The hooks \<open>onTrack\<close> and \<open>onTrigger\<close> are called
  in development builds only (\<open>__DEV__\<close>); the model is the production build.
\<close>

record ReactiveEffect =
  active :: bool
  raw :: "cmd list"
  deps :: "(target \<times> key) list"
  lazy :: bool
  scheduler :: "sched option"
  onStop :: "cmd list option"
  allowRecurse :: bool

record ComputedRefImpl =
  c_value :: val
  c_dirty :: bool
  c_effect :: nat

text \<open>
  What the model adds to the code: a trace of the user functions that were started (the
  function of an effect, a scheduler, the callback of a watcher with its two values) and
  of the calls of \<open>track\<close> that passed its guard, so that "is run", "is scheduled" and "is
  tracked" can be stated. Nothing reads it.
\<close>

datatype event =
    EvRun nat
  | EvSched nat
  | EvTrack nat target key
  | EvCallback val val

text \<open>
  The module state. A \<open>Dep\<close> (a \<open>Set\<close>) and a \<open>KeyToDepMap\<close> (a \<open>Map\<close>) iterate in
  insertion order, so they are a list without repetition and an association list. The
  effect stack and the tracking-state stack have their top at the head.
\<close>

type_synonym Dep = "nat list"

type_synonym KeyToDepMap = "(key \<times> Dep) list"

record state =
  targetMap :: "target \<Rightarrow> KeyToDepMap option"
  effects :: "ReactiveEffect list"
  effectStack :: "nat list"
  activeEffect :: "nat option"
  shouldTrack :: bool
  trackStack :: "bool list"
  computeds :: "ComputedRefImpl list"
  trace :: "event list"

definition init_state :: state where
  "init_state = \<lparr> targetMap = (\<lambda>_. None), effects = [], effectStack = [],
     activeEffect = None, shouldTrack = True, trackStack = [], computeds = [], trace = [] \<rparr>"

subsection \<open>Maps in insertion order\<close>

fun map_set :: "('k \<times> 'v) list \<Rightarrow> 'k \<Rightarrow> 'v \<Rightarrow> ('k \<times> 'v) list" where
  "map_set [] k v = [(k, v)]"
| "map_set ((k', v') # m) k v = (if k' = k then (k, v) # m else (k', v') # map_set m k v)"

definition depsMap_of :: "state \<Rightarrow> target \<Rightarrow> KeyToDepMap" where
  "depsMap_of s t = (case targetMap s t of None \<Rightarrow> [] | Some m \<Rightarrow> m)"

definition dep_get :: "KeyToDepMap \<Rightarrow> key \<Rightarrow> Dep" where
  "dep_get m k = (case map_of m k of None \<Rightarrow> [] | Some d \<Rightarrow> d)"

definition dep_of :: "state \<Rightarrow> target \<Rightarrow> key \<Rightarrow> Dep" where
  "dep_of s t k = dep_get (depsMap_of s t) k"

subsection \<open>The tracking-state stack\<close>

definition pauseTracking :: "state \<Rightarrow> state" where
  "pauseTracking s = s\<lparr> trackStack := shouldTrack s # trackStack s, shouldTrack := False \<rparr>"

definition enableTracking :: "state \<Rightarrow> state" where
  "enableTracking s = s\<lparr> trackStack := shouldTrack s # trackStack s, shouldTrack := True \<rparr>"

definition resetTracking :: "state \<Rightarrow> state" where
  "resetTracking s =
     (case trackStack s of
        [] \<Rightarrow> s\<lparr> shouldTrack := True \<rparr>
      | b # rest \<Rightarrow> s\<lparr> trackStack := rest, shouldTrack := b \<rparr>)"

subsection \<open>track and cleanup\<close>

definition effect_update :: "nat \<Rightarrow> (ReactiveEffect \<Rightarrow> ReactiveEffect) \<Rightarrow> state \<Rightarrow> state" where
  "effect_update e f s = s\<lparr> effects := (effects s)[e := f (effects s ! e)] \<rparr>"

definition track :: "target \<Rightarrow> TrackOpTypes \<Rightarrow> key \<Rightarrow> state \<Rightarrow> state" where
  "track t ty k s =
     (case activeEffect s of
        None \<Rightarrow> s
      | Some e \<Rightarrow>
          if \<not> shouldTrack s then s
          else
            let s1 = s\<lparr> trace := trace s @ [EvTrack e t k] \<rparr>;
                depsMap = depsMap_of s1 t;
                dep = dep_get depsMap k
            in if e \<in> set dep then s1
               else effect_update e (\<lambda>r. r\<lparr> deps := deps r @ [(t, k)] \<rparr>)
                      (s1\<lparr> targetMap := (targetMap s1)(t \<mapsto> map_set depsMap k (dep @ [e])) \<rparr>))"

definition dep_delete :: "nat \<Rightarrow> target \<times> key \<Rightarrow> state \<Rightarrow> state" where
  "dep_delete e d s =
     (case targetMap s (fst d) of
        None \<Rightarrow> s
      | Some m \<Rightarrow>
          (case map_of m (snd d) of
             None \<Rightarrow> s
           | Some dep \<Rightarrow> s\<lparr> targetMap := (targetMap s)(fst d \<mapsto> map_set m (snd d) (removeAll e dep)) \<rparr>))"

definition cleanup :: "nat \<Rightarrow> state \<Rightarrow> state" where
  "cleanup e s =
     effect_update e (\<lambda>r. r\<lparr> deps := [] \<rparr>) (fold (dep_delete e) (deps (effects s ! e)) s)"

subsection \<open>Numbers behind string keys\<close>

text \<open>
  \<open>key >= newValue\<close> in \<open>trigger\<close> is the relational comparison of the language: a string
  key is converted by \<open>StringToNumber\<close>. The conversion below follows its grammar (white
  space trimmed, the empty string is \<open>0\<close>, \<open>Infinity\<close>, decimal literals with fraction and
  exponent, unsigned \<open>0x\<close>, \<open>0o\<close> and \<open>0b\<close> literals), and the mathematical value of a
  literal is rounded to the nearest double, ties to the even significand (\<open>RoundMV\<close>).

  A string is the list of its code units, which are below 256 in the type \<open>char\<close>: the
  white space and the line terminators of the language in that range are the characters
  9 to 13, the space and the no-break space 160.
\<close>

definition is_ws :: "char \<Rightarrow> bool" where
  "is_ws c = (of_char c \<in> {9, 10, 11, 12, 13, 32, 160 :: nat})"

definition trim :: "string \<Rightarrow> string" where
  "trim s = rev (dropWhile is_ws (rev (dropWhile is_ws s)))"

definition digit_of :: "nat \<Rightarrow> char \<Rightarrow> nat option" where
  "digit_of radix c =
     (let n = (of_char c :: nat);
          d = (if 48 \<le> n \<and> n \<le> 57 then Some (n - 48)
               else if 97 \<le> n \<and> n \<le> 102 then Some (n - 87)
               else if 65 \<le> n \<and> n \<le> 70 then Some (n - 55)
               else None)
      in case d of None \<Rightarrow> None | Some v \<Rightarrow> if v < radix then Some v else None)"

fun digits_acc :: "nat \<Rightarrow> nat \<Rightarrow> string \<Rightarrow> nat option" where
  "digits_acc radix acc [] = Some acc"
| "digits_acc radix acc (c # cs) =
     (case digit_of radix c of
        None \<Rightarrow> None
      | Some d \<Rightarrow> digits_acc radix (acc * radix + d) cs)"

definition digits :: "nat \<Rightarrow> string \<Rightarrow> nat option" where
  "digits radix s = (if s = [] then None else digits_acc radix 0 s)"

definition is_e :: "char \<Rightarrow> bool" where
  "is_e c = (c = CHR ''e'' \<or> c = CHR ''E'')"

definition exponent :: "string \<Rightarrow> int option" where
  "exponent s =
     (case s of
        [] \<Rightarrow> Some 0
      | _ # r \<Rightarrow>
          (case r of
             [] \<Rightarrow> None
           | c # r' \<Rightarrow>
               if c = CHR ''-'' then map_option (\<lambda>n. - int n) (digits 10 r')
               else if c = CHR ''+'' then map_option int (digits 10 r')
               else map_option int (digits 10 r)))"

definition mantissa :: "string \<Rightarrow> (nat \<times> nat) option" where
  "mantissa s =
     (let ip = takeWhile (\<lambda>c. c \<noteq> CHR ''.'') s;
          rest = dropWhile (\<lambda>c. c \<noteq> CHR ''.'') s
      in case rest of
           [] \<Rightarrow> map_option (\<lambda>n. (n, 0)) (digits 10 ip)
         | _ # fp \<Rightarrow>
             if ip = [] \<and> fp = [] then None
             else (case (digits_acc 10 0 ip, digits_acc 10 0 fp) of
                     (Some i, Some f) \<Rightarrow> Some (i * 10 ^ length fp + f, length fp)
                   | _ \<Rightarrow> None))"

text \<open>
  The double nearest to a positive rational \<open>q\<close>. \<open>binade q\<close> is the exponent \<open>e\<close> with
  \<open>2 ^ e \<le> q < 2 ^ (e + 1)\<close>: numerator and denominator give it up to one, and the
  comparison decides. A double of that binade is a multiple of \<open>2 ^ (e - 52)\<close>; below the
  smallest normal exponent \<open>- 1022\<close> the doubles are the multiples of \<open>2 ^ (- 1074)\<close>. A
  value that rounds to \<open>2 ^ 1024\<close> or more (a binade from \<open>1024\<close> on, or the significand
  \<open>2 ^ 53\<close> in the binade \<open>1023\<close>) is \<open>Infinity\<close>.
\<close>

function ilog2 :: "int \<Rightarrow> int" where
  "ilog2 n = (if n < 2 then 0 else 1 + ilog2 (n div 2))"
  by auto

termination by (relation "measure nat") auto

declare ilog2.simps [simp del]

definition pow2 :: "int \<Rightarrow> rat" where
  "pow2 e = (if 0 \<le> e then of_int (2 ^ nat e) else 1 / of_int (2 ^ nat (- e)))"

definition binade :: "rat \<Rightarrow> int" where
  "binade q =
     (let (a, b) = quotient_of q;
          e = ilog2 a - ilog2 b
      in if pow2 e \<le> q then e else e - 1)"

definition round_even :: "rat \<Rightarrow> int" where
  "round_even q =
     (let f = \<lfloor>q\<rfloor>; d = q - of_int f
      in if d < 1 / 2 then f
         else if 1 / 2 < d then f + 1
         else if even f then f else f + 1)"

definition RoundMV :: "rat \<Rightarrow> jsnum" where
  "RoundMV q =
     (if q = 0 then Fin 0
      else let e = max (binade q) (- 1022)
           in if 1024 \<le> e then PosInf
              else let u = pow2 (e - 52);
                       m = round_even (q / u)
                   in if e = 1023 \<and> m = 2 ^ 53 then PosInf else Fin (of_int m * u))"

definition negate :: "jsnum \<Rightarrow> jsnum" where
  "negate n =
     (case n of
        NaN \<Rightarrow> NaN
      | Fin q \<Rightarrow> if q = 0 then NegZero else Fin (- q)
      | NegZero \<Rightarrow> Fin 0
      | PosInf \<Rightarrow> NegInf
      | NegInf \<Rightarrow> PosInf)"

definition unsigned_decimal :: "string \<Rightarrow> rat option" where
  "unsigned_decimal s =
     (case (mantissa (takeWhile (\<lambda>c. \<not> is_e c) s), exponent (dropWhile (\<lambda>c. \<not> is_e c) s)) of
        (Some (m, f), Some x) \<Rightarrow>
          Some (if 0 \<le> x then of_nat (m * 10 ^ nat x) / of_nat (10 ^ f)
                else of_nat m / of_nat (10 ^ f * 10 ^ nat (- x)))
      | _ \<Rightarrow> None)"

definition signed_decimal :: "bool \<Rightarrow> string \<Rightarrow> jsnum" where
  "signed_decimal neg s =
     (if s = ''Infinity'' then (if neg then NegInf else PosInf)
      else case unsigned_decimal s of
             None \<Rightarrow> NaN
           | Some q \<Rightarrow> if neg then negate (RoundMV q) else RoundMV q)"

definition radix_literal :: "string \<Rightarrow> jsnum option" where
  "radix_literal s =
     (case s of
        z # p # r \<Rightarrow>
          if z \<noteq> CHR ''0'' then None
          else if p = CHR ''x'' \<or> p = CHR ''X'' then Some (case digits 16 r of None \<Rightarrow> NaN | Some n \<Rightarrow> RoundMV (of_nat n))
          else if p = CHR ''o'' \<or> p = CHR ''O'' then Some (case digits 8 r of None \<Rightarrow> NaN | Some n \<Rightarrow> RoundMV (of_nat n))
          else if p = CHR ''b'' \<or> p = CHR ''B'' then Some (case digits 2 r of None \<Rightarrow> NaN | Some n \<Rightarrow> RoundMV (of_nat n))
          else None
      | _ \<Rightarrow> None)"

definition StringToNumber :: "string \<Rightarrow> jsnum" where
  "StringToNumber str =
     (let s = trim str
      in case s of
           [] \<Rightarrow> Fin 0
         | c # r \<Rightarrow>
             (case radix_literal s of
                Some n \<Rightarrow> n
              | None \<Rightarrow>
                  if c = CHR ''-'' then signed_decimal True r
                  else if c = CHR ''+'' then signed_decimal False r
                  else signed_decimal False s))"

text \<open>\<open>a >= b\<close> on numbers: false as soon as one side is \<open>NaN\<close>.\<close>

fun num_ge :: "jsnum \<Rightarrow> jsnum \<Rightarrow> bool" where
  "num_ge NaN _ = False"
| "num_ge _ NaN = False"
| "num_ge PosInf _ = True"
| "num_ge _ NegInf = True"
| "num_ge NegInf _ = False"
| "num_ge _ PosInf = False"
| "num_ge NegZero NegZero = True"
| "num_ge NegZero (Fin q) = (0 \<ge> q)"
| "num_ge (Fin p) NegZero = (p \<ge> 0)"
| "num_ge (Fin p) (Fin q) = (p \<ge> q)"

subsection \<open>The comparison of a key with the new value\<close>

datatype error = TypeError | NotModelled

fun str_less :: "string \<Rightarrow> string \<Rightarrow> bool" where
  "str_less _ [] = False"
| "str_less [] (_ # _) = True"
| "str_less (a # as) (b # bs) =
     ((of_char a :: nat) < of_char b \<or> (a = b \<and> str_less as bs))"

text \<open>
  \<open>key >= newValue\<close>. A symbol cannot be converted to a number: the comparison throws a
  \<open>TypeError\<close>. Two strings are compared as strings; otherwise both sides become numbers.
  An object as new value would be converted by its own \<open>valueOf\<close> or \<open>toString\<close>, which
  the model does not have.
\<close>

fun key_ge :: "key \<Rightarrow> val \<Rightarrow> error + bool" where
  "key_ge (KSym _) (VObj _) = Inl NotModelled"
| "key_ge (KSym _) (VReactive _) = Inl NotModelled"
| "key_ge (KSym _) (VReadonly _) = Inl NotModelled"
| "key_ge (KSym _) _ = Inl TypeError"
| "key_ge (KStr a) (VStr b) = Inr (\<not> str_less a b)"
| "key_ge (KStr a) (VNum n) = Inr (num_ge (StringToNumber a) n)"
| "key_ge (KStr a) VUndef = Inr False"
| "key_ge (KStr a) VNull = Inr (num_ge (StringToNumber a) (Fin 0))"
| "key_ge (KStr a) (VBool b) = Inr (num_ge (StringToNumber a) (Fin (if b then 1 else 0)))"
| "key_ge (KStr a) _ = Inl NotModelled"

text \<open>
  Modelled from the spec: \<open>isIntegerKey\<close> of the shared helpers, which is not part of
  the sources: "a value is an integer key iff its string form parses losslessly to a
  non-negative integer", that is, the key is the decimal numeral of a natural number.
\<close>

definition isIntegerKey :: "key \<Rightarrow> bool" where
  "isIntegerKey k =
     (case k of
        KSym _ \<Rightarrow> False
      | KStr s \<Rightarrow> (case digits 10 s of None \<Rightarrow> False | Some _ \<Rightarrow> s = ''0'' \<or> hd s \<noteq> CHR ''0''))"

subsection \<open>trigger: the effects to run\<close>

text \<open>
  The local \<open>add\<close> of \<open>trigger\<close>: every effect of the given \<open>Dep\<close> that is not the active
  effect, or that allows recursion, goes into the \<open>Set\<close> \<open>effects\<close>.
\<close>

definition add :: "state \<Rightarrow> nat list \<Rightarrow> Dep \<Rightarrow> nat list" where
  "add s acc dep =
     fold (\<lambda>e acc. if Some e \<noteq> activeEffect s \<or> allowRecurse (effects s ! e)
                    then (if e \<in> set acc then acc else acc @ [e]) else acc) dep acc"

fun add_length :: "state \<Rightarrow> val \<Rightarrow> KeyToDepMap \<Rightarrow> nat list \<Rightarrow> error + nat list" where
  "add_length s nv [] acc = Inr acc"
| "add_length s nv ((k, dep) # m) acc =
     (if k = KStr ''length'' then add_length s nv m (add s acc dep)
      else case key_ge k nv of
             Inl err \<Rightarrow> Inl err
           | Inr b \<Rightarrow> add_length s nv m (if b then add s acc dep else acc))"

definition add_key :: "state \<Rightarrow> KeyToDepMap \<Rightarrow> key \<Rightarrow> nat list \<Rightarrow> nat list" where
  "add_key s depsMap k acc = add s acc (dep_get depsMap k)"

definition trigger_effects ::
  "state \<Rightarrow> target \<Rightarrow> TriggerOpTypes \<Rightarrow> key option \<Rightarrow> val \<Rightarrow> KeyToDepMap \<Rightarrow> error + nat list" where
  "trigger_effects s t ty k nv depsMap =
     (if ty = CLEAR then Inr (fold (\<lambda>(_, dep) acc. add s acc dep) depsMap [])
      else if k = Some (KStr ''length'') \<and> isArray t then add_length s nv depsMap []
      else
        let acc = (case k of None \<Rightarrow> [] | Some k' \<Rightarrow> add_key s depsMap k' [])
        in Inr (case ty of
             ADD \<Rightarrow>
               if \<not> isArray t then
                 (let acc1 = add_key s depsMap ITERATE_KEY acc
                  in if isMap t then add_key s depsMap MAP_KEY_ITERATE_KEY acc1 else acc1)
               else if (case k of None \<Rightarrow> False | Some k' \<Rightarrow> isIntegerKey k') then
                 add_key s depsMap (KStr ''length'') acc
               else acc
           | DELETE \<Rightarrow>
               if \<not> isArray t then
                 (let acc1 = add_key s depsMap ITERATE_KEY acc
                  in if isMap t then add_key s depsMap MAP_KEY_ITERATE_KEY acc1 else acc1)
               else acc
           | SET \<Rightarrow> if isMap t then add_key s depsMap ITERATE_KEY acc else acc
           | CLEAR \<Rightarrow> acc))"

section \<open>The effect runtime\<close>

text \<open>
  How a list of statements ends: it runs through, it returns a value, or it throws. A
  function of the model returns \<open>None\<close> when the fuel is used up before the code
  returns (the code may run forever), and where the model has no answer
  (\<open>NotModelled\<close>).
\<close>

datatype completion = Next | Returned val | Thrown

type_synonym result = "(completion \<times> state) option"

definition new_effect :: "cmd list \<Rightarrow> bool \<Rightarrow> sched option \<Rightarrow> cmd list option \<Rightarrow> bool \<Rightarrow> ReactiveEffect" where
  "new_effect fn lz sch os ar =
     \<lparr> active = True, raw = fn, deps = [], lazy = lz, scheduler = sch, onStop = os,
       allowRecurse = ar \<rparr>"

definition createReactiveEffect ::
  "cmd list \<Rightarrow> bool \<Rightarrow> sched option \<Rightarrow> cmd list option \<Rightarrow> bool \<Rightarrow> state \<Rightarrow> state" where
  "createReactiveEffect fn lz sch os ar s =
     s\<lparr> effects := effects s @ [new_effect fn lz sch os ar] \<rparr>"

text \<open>The part of \<open>reactiveEffect\<close> before \<open>fn()\<close>, and its \<open>finally\<close> block.\<close>

definition enter :: "nat \<Rightarrow> state \<Rightarrow> state" where
  "enter e s =
     (let s1 = enableTracking (cleanup e s)
      in s1\<lparr> effectStack := e # effectStack s1, activeEffect := Some e,
             trace := trace s1 @ [EvRun e] \<rparr>)"

definition leave :: "state \<Rightarrow> state" where
  "leave s =
     (let s1 = resetTracking (s\<lparr> effectStack := tl (effectStack s) \<rparr>)
      in s1\<lparr> activeEffect := (case effectStack s1 of [] \<Rightarrow> None | e # _ \<Rightarrow> Some e) \<rparr>)"

definition discard :: "result \<Rightarrow> result" where
  "discard r = (case r of Some (Returned _, s) \<Rightarrow> Some (Next, s) | _ \<Rightarrow> r)"

definition returned :: "result \<Rightarrow> result" where
  "returned r = (case r of Some (Next, s) \<Rightarrow> Some (Returned VUndef, s) | _ \<Rightarrow> r)"

definition computed_target :: "nat \<Rightarrow> target" where
  "computed_target c = Target ComputedObject c"

definition computed_update :: "nat \<Rightarrow> (ComputedRefImpl \<Rightarrow> ComputedRefImpl) \<Rightarrow> state \<Rightarrow> state" where
  "computed_update c f s = s\<lparr> computeds := (computeds s)[c := f (computeds s ! c)] \<rparr>"

definition computed_read :: "nat \<Rightarrow> state \<Rightarrow> result" where
  "computed_read c s =
     (let s1 = track (computed_target c) GET (KStr ''value'') s
      in Some (Returned (c_value (computeds s1 ! c)), s1))"

text \<open>
  The functions of the module, with the running of user code as their first argument
  \<open>ex\<close>: it is \<open>exec\<close> below, which spends one unit of fuel for each call into user code.
\<close>

type_synonym runner = "cmd list \<Rightarrow> state \<Rightarrow> result"

definition call :: "runner \<Rightarrow> cmd list \<Rightarrow> state \<Rightarrow> result" where
  "call ex fn s = returned (ex fn s)"

definition reactiveEffect :: "runner \<Rightarrow> nat \<Rightarrow> state \<Rightarrow> result" where
  "reactiveEffect ex e s =
     (if e \<ge> length (effects s) then Some (Thrown, s)
      else if \<not> active (effects s ! e) then
        (if scheduler (effects s ! e) \<noteq> None then Some (Returned VUndef, s)
         else call ex (raw (effects s ! e)) (s\<lparr> trace := trace s @ [EvRun e] \<rparr>))
      else if e \<notin> set (effectStack s) then
        (case call ex (raw (effects s ! e)) (enter e s) of
           None \<Rightarrow> None
         | Some (c, s') \<Rightarrow> Some (c, leave s'))
      else Some (Returned VUndef, s))"

definition effect ::
  "runner \<Rightarrow> cmd list \<Rightarrow> bool \<Rightarrow> sched option \<Rightarrow> cmd list option \<Rightarrow> bool \<Rightarrow> state \<Rightarrow> result" where
  "effect ex fn lz sch os ar s =
     (let s1 = createReactiveEffect fn lz sch os ar s
      in if \<not> lz then
           (case reactiveEffect ex (length (effects s)) s1 of
              Some (Returned _, s2) \<Rightarrow> Some (Returned (VNum (Fin (of_nat (length (effects s))))), s2)
            | r \<Rightarrow> r)
         else Some (Returned (VNum (Fin (of_nat (length (effects s))))), s1))"

definition stop :: "runner \<Rightarrow> nat \<Rightarrow> state \<Rightarrow> result" where
  "stop ex e s =
     (if e \<ge> length (effects s) then Some (Thrown, s)
      else if active (effects s ! e) then
        (case onStop (effects s ! e) of
           None \<Rightarrow> Some (Next, effect_update e (\<lambda>r. r\<lparr> active := False \<rparr>) (cleanup e s))
         | Some hook \<Rightarrow>
             (case call ex hook (cleanup e s) of
                Some (Returned _, s') \<Rightarrow> Some (Next, effect_update e (\<lambda>r. r\<lparr> active := False \<rparr>) s')
              | r \<Rightarrow> r))
      else Some (Next, s))"

text \<open>
  The scheduler of a computed cell (the arrow function of the constructor of
  \<open>ComputedRefImpl\<close>) is user code from the point of view of \<open>trigger\<close>; its call of
  \<open>trigger\<close> is run as the statement \<open>Trigger\<close>.
\<close>

definition call_scheduler :: "runner \<Rightarrow> sched \<Rightarrow> state \<Rightarrow> result" where
  "call_scheduler ex sch s =
     (case sch of
        SchedUser fn \<Rightarrow> discard (ex fn s)
      | SchedComputed c \<Rightarrow>
          if c \<ge> length (computeds s) then Some (Thrown, s)
          else if \<not> c_dirty (computeds s ! c) then
            discard (ex [Trigger (computed_target c) SET (Some (KStr ''value'')) VUndef]
              (computed_update c (\<lambda>r. r\<lparr> c_dirty := True \<rparr>) s))
          else Some (Next, s))"

definition run :: "runner \<Rightarrow> nat \<Rightarrow> state \<Rightarrow> result" where
  "run ex e s =
     (if e \<ge> length (effects s) then Some (Thrown, s)
      else case scheduler (effects s ! e) of
             Some sch \<Rightarrow> call_scheduler ex sch (s\<lparr> trace := trace s @ [EvSched e] \<rparr>)
           | None \<Rightarrow> discard (reactiveEffect ex e s))"

fun forEach_run :: "runner \<Rightarrow> nat list \<Rightarrow> state \<Rightarrow> result" where
  "forEach_run ex [] s = Some (Next, s)"
| "forEach_run ex (e # es) s =
     (case run ex e s of
        Some (Next, s') \<Rightarrow> forEach_run ex es s'
      | r \<Rightarrow> r)"

definition trigger ::
  "runner \<Rightarrow> target \<Rightarrow> TriggerOpTypes \<Rightarrow> key option \<Rightarrow> val \<Rightarrow> state \<Rightarrow> result" where
  "trigger ex t ty k nv s =
     (case targetMap s t of
        None \<Rightarrow> Some (Next, s)
      | Some depsMap \<Rightarrow>
          (case trigger_effects s t ty k nv depsMap of
             Inl TypeError \<Rightarrow> Some (Thrown, s)
           | Inl NotModelled \<Rightarrow> None
           | Inr effs \<Rightarrow> forEach_run ex effs s))"

definition computed_get :: "runner \<Rightarrow> nat \<Rightarrow> state \<Rightarrow> result" where
  "computed_get ex c s =
     (if c \<ge> length (computeds s) then Some (Thrown, s)
      else if c_dirty (computeds s ! c) then
        (case reactiveEffect ex (c_effect (computeds s ! c)) s of
           Some (Returned v, s') \<Rightarrow>
             computed_read c (computed_update c (\<lambda>r. r\<lparr> c_value := v, c_dirty := False \<rparr>) s')
         | r \<Rightarrow> r)
      else computed_read c s)"

fun step :: "runner \<Rightarrow> cmd \<Rightarrow> state \<Rightarrow> result" where
  "step ex (Track t ty k) s = Some (Next, track t ty k s)"
| "step ex (Trigger t ty k nv) s = trigger ex t ty k nv s"
| "step ex (Invoke e) s = discard (reactiveEffect ex e s)"
| "step ex (Stop e) s = stop ex e s"
| "step ex PauseTracking s = Some (Next, pauseTracking s)"
| "step ex EnableTracking s = Some (Next, enableTracking s)"
| "step ex ResetTracking s = Some (Next, resetTracking s)"
| "step ex Throw s = Some (Thrown, s)"
| "step ex (Return (Lit v)) s = Some (Returned v, s)"
| "step ex (Return (ComputedValue c)) s = computed_get ex c s"
| "step ex (Effect fn lz sch os ar) s = discard (effect ex fn lz sch os ar s)"
| "step ex (Guarded fn) s =
     (case ex fn s of
        None \<Rightarrow> None
      | Some (_, s') \<Rightarrow> Some (Next, s'))"

fun steps :: "runner \<Rightarrow> cmd list \<Rightarrow> state \<Rightarrow> result" where
  "steps ex [] s = Some (Next, s)"
| "steps ex (c # cs) s =
     (case step ex c s of
        Some (Next, s') \<Rightarrow> steps ex cs s'
      | r \<Rightarrow> r)"

fun exec :: "nat \<Rightarrow> cmd list \<Rightarrow> state \<Rightarrow> result" where
  "exec 0 fn s = None"
| "exec (Suc n) fn s = steps (exec n) fn s"

section \<open>Invariants and relations between states\<close>

text \<open>
  The invariant of the dependency graph: a \<open>Dep\<close> contains an effect if and only if the
  \<open>deps\<close> of the effect contain the \<open>Dep\<close>, and only effects that exist are subscribed.
  \<open>wf\<close> adds that the active effect and the effects on the stack exist.
\<close>

definition graph_inv :: "state \<Rightarrow> bool" where
  "graph_inv s \<longleftrightarrow>
     (\<forall>e t k. e \<in> set (dep_of s t k) \<longleftrightarrow>
        e < length (effects s) \<and> (t, k) \<in> set (deps (effects s ! e)))"

definition wf :: "state \<Rightarrow> bool" where
  "wf s \<longleftrightarrow> graph_inv s
     \<and> (\<forall>e. activeEffect s = Some e \<longrightarrow> e < length (effects s))
     \<and> (\<forall>e \<in> set (effectStack s). e < length (effects s))"

text \<open>
  A relation between the state before and the state after is proved for all user code at
  once: \<open>closed R\<close> collects what \<open>R\<close> has to satisfy for each state change of the
  module, and then \<open>R\<close> holds between the states around every run of user code.
\<close>

definition preserves :: "(state \<Rightarrow> state \<Rightarrow> bool) \<Rightarrow> runner \<Rightarrow> bool" where
  "preserves R ex \<longleftrightarrow> (\<forall>fn s c s'. ex fn s = Some (c, s') \<longrightarrow> R s s')"

definition closed :: "(state \<Rightarrow> state \<Rightarrow> bool) \<Rightarrow> bool" where
  "closed R \<longleftrightarrow>
     (\<forall>s. R s s) \<and>
     (\<forall>a b c. R a b \<longrightarrow> R b c \<longrightarrow> R a c) \<and>
     (\<forall>t ty k s. R s (track t ty k s)) \<and>
     (\<forall>s. R s (pauseTracking s)) \<and>
     (\<forall>s. R s (enableTracking s)) \<and>
     (\<forall>s. R s (resetTracking s)) \<and>
     (\<forall>e s. e < length (effects s) \<longrightarrow> \<not> active (effects s ! e)
        \<longrightarrow> R s (s\<lparr> trace := trace s @ [EvRun e] \<rparr>)) \<and>
     (\<forall>e s s'. e < length (effects s) \<longrightarrow> active (effects s ! e) \<longrightarrow> e \<notin> set (effectStack s)
        \<longrightarrow> R (enter e s) s' \<longrightarrow> R s (leave s')) \<and>
     (\<forall>e s. e < length (effects s) \<longrightarrow> R s (cleanup e s)) \<and>
     (\<forall>e s s'. e < length (effects s) \<longrightarrow> R s s'
        \<longrightarrow> R s (effect_update e (\<lambda>r. r\<lparr> active := False \<rparr>) s')) \<and>
     (\<forall>fn lz sch os ar s. R s (createReactiveEffect fn lz sch os ar s)) \<and>
     (\<forall>c s. c < length (computeds s) \<longrightarrow> R s (computed_update c (\<lambda>r. r\<lparr> c_dirty := True \<rparr>) s)) \<and>
     (\<forall>c v s s'. c < length (computeds s) \<longrightarrow> R s s'
        \<longrightarrow> R s (computed_update c (\<lambda>r. r\<lparr> c_value := v, c_dirty := False \<rparr>) s')) \<and>
     (\<forall>e s. R s (s\<lparr> trace := trace s @ [EvSched e] \<rparr>))"

definition wf_rel :: "state \<Rightarrow> state \<Rightarrow> bool" where
  "wf_rel s s' \<longleftrightarrow>
     length (effects s) \<le> length (effects s') \<and>
     length (computeds s') = length (computeds s) \<and>
     (wf s \<longrightarrow> wf s')"

text \<open>
  What an effect is subscribed to after some code has run, it was subscribed to before or
  it was tracked for it in between.
\<close>

definition deps_of :: "state \<Rightarrow> nat \<Rightarrow> (target \<times> key) list" where
  "deps_of s e = (if e < length (effects s) then deps (effects s ! e) else [])"

definition trk_rel :: "state \<Rightarrow> state \<Rightarrow> bool" where
  "trk_rel s s' \<longleftrightarrow>
     (\<exists>tr. trace s' = trace s @ tr \<and>
        (\<forall>e t k. (t, k) \<in> set (deps_of s' e) \<longrightarrow>
           (t, k) \<in> set (deps_of s e) \<or> EvTrack e t k \<in> set tr))"

text \<open>The outcome and the final state of a run, and the objects of the examples.\<close>

definition outcome :: "result \<Rightarrow> completion option" where
  "outcome r = map_option fst r"

definition final :: "result \<Rightarrow> state" where
  "final r = snd (the r)"

definition o1 :: target where
  "o1 = Target PlainObject 1"

definition kx :: key where
  "kx = KStr ''x''"

definition ky :: key where
  "ky = KStr ''y''"

text \<open>
  \<open>s_sub\<close>: after \<open>effect(() => o1.x)\<close>. \<open>s_hook\<close>: after
  \<open>e = effect(() => o1.x, { lazy: true, onStop: () => e() })\<close>.
\<close>

definition s_sub :: state where
  "s_sub = final (exec 3 [Effect [Track o1 GET kx] False None None False] init_state)"

definition s_hook :: state where
  "s_hook = createReactiveEffect [Track o1 GET kx] True None (Some [Invoke 0]) False init_state"

text \<open>
  The top of the effect stack, and what every run of user code leaves as it found it: the
  effect stack, and that the active effect is its top.
\<close>

definition top_of :: "nat list \<Rightarrow> nat option" where
  "top_of st = (case st of [] \<Rightarrow> None | e # _ \<Rightarrow> Some e)"

definition stack_rel :: "state \<Rightarrow> state \<Rightarrow> bool" where
  "stack_rel s s' \<longleftrightarrow>
     effectStack s' = effectStack s \<and>
     (activeEffect s = top_of (effectStack s) \<longrightarrow> activeEffect s' = top_of (effectStack s'))"

text \<open>
  \<open>s_push\<close>: an effect whose function pauses and enables tracking without resetting it,
  as the instrumented \<open>push\<close> of a reactive array does. \<open>s_throw\<close>: an effect whose
  function reads \<open>o1.x\<close> and throws.
\<close>

definition s_push :: state where
  "s_push = createReactiveEffect [PauseTracking, EnableTracking] True None None False init_state"

definition s_throw :: state where
  "s_throw = createReactiveEffect [Track o1 GET kx, Throw] True None None False init_state"

text \<open>
  While an effect is on the effect stack and stays active, no run of user code starts its
  function again. (An effect that was stopped stays inactive.)
\<close>

definition norun_rel :: "nat \<Rightarrow> state \<Rightarrow> state \<Rightarrow> bool" where
  "norun_rel e s s' \<longleftrightarrow>
     effectStack s' = effectStack s \<and>
     length (effects s) \<le> length (effects s') \<and>
     (\<forall>x < length (effects s). \<not> active (effects s ! x) \<longrightarrow> \<not> active (effects s' ! x)) \<and>
     (\<exists>tr. trace s' = trace s @ tr \<and>
        (e \<in> set (effectStack s) \<and> e < length (effects s) \<and> active (effects s' ! e)
           \<longrightarrow> EvRun e \<notin> set tr))"

text \<open>
  \<open>s_iter\<close>: after \<open>effect(() => { o1.x; Object.keys(o1) })\<close>, an effect in the \<open>Dep\<close>
  of the key \<open>x\<close> and in the \<open>Dep\<close> of \<open>ITERATE_KEY\<close>. \<open>s_iter_arr\<close>: after an effect
  has read the index \<open>1\<close> and the \<open>length\<close> of an array. \<open>s_self\<close>: an effect that reads
  and then writes \<open>o1.x\<close>, not yet run.
\<close>

definition s_iter :: state where
  "s_iter = final (exec 3 [Effect [Track o1 GET kx, Track o1 ITERATE ITERATE_KEY] False None None False] init_state)"

definition s_iter_arr :: state where
  "s_iter_arr = final (exec 3 [Effect [Track (Target ArrayObject 2) GET (KStr ''1''),
     Track (Target ArrayObject 2) GET (KStr ''length'')] False None None False] init_state)"

definition s_self :: state where
  "s_self = createReactiveEffect [Track o1 GET kx, Trigger o1 SET (Some kx) VUndef] True None None False init_state"

text \<open>
  \<open>s_mid\<close>: inside the run of the effect of \<open>s_self\<close>, after it has read \<open>o1.x\<close>;
  \<open>s_mid2\<close>: the same with a second effect that reads \<open>o1.x\<close> and then invokes the
  first; \<open>s_mid_rec\<close>: as \<open>s_mid\<close> for an effect created with \<open>allowRecurse\<close>.
\<close>

definition s_mid :: state where
  "s_mid = track o1 GET kx (enter 0 s_self)"

definition s_mid2 :: state where
  "s_mid2 = track o1 GET kx (enter 0 (final (exec 4
     [Effect [Track o1 GET kx, Trigger o1 SET (Some kx) VUndef] True None None False,
      Effect [Track o1 GET kx, Invoke 0] False None None False] init_state)))"

definition s_mid_rec :: state where
  "s_mid_rec = track o1 GET kx (enter 0
     (createReactiveEffect [Track o1 GET kx, Trigger o1 SET (Some kx) VUndef] True None None True init_state))"

text \<open>
  \<open>s_stale\<close>: the effect \<open>() => o1.x\<close> subscribed to \<open>o1.y\<close>, as after an earlier run
  that took another branch.
\<close>

definition s_stale :: state where
  "s_stale = leave (track o1 GET ky (enter 0
     (createReactiveEffect [Track o1 GET kx] True None None False init_state)))"

text \<open>
  The objects of the examples on arrays: \<open>s_arr\<close> is the state after four effects have
  read \<open>arr.length\<close>, \<open>arr[0]\<close>, \<open>arr[2]\<close> and \<open>arr.foo\<close>; \<open>s_frac\<close> after one effect
  has read \<open>arr['1.5']\<close>.
\<close>

definition arr :: target where
  "arr = Target ArrayObject 2"




text \<open>
  The \<open>Dep\<close>s that \<open>trigger\<close> hands to its local \<open>add\<close>, in the order of the calls: all
  of them for \<open>CLEAR\<close>; for the \<open>length\<close> of an array the one at \<open>length\<close> and those at a
  key not below the new value; otherwise the one at the key, and with it the one at
  \<open>ITERATE_KEY\<close>, \<open>MAP_KEY_ITERATE_KEY\<close> or \<open>length\<close> that the kind of the operation asks
  for.
\<close>

definition selected_deps ::
  "target \<Rightarrow> TriggerOpTypes \<Rightarrow> key option \<Rightarrow> val \<Rightarrow> KeyToDepMap \<Rightarrow> Dep list" where
  "selected_deps t ty k nv depsMap =
     (if ty = CLEAR then map snd depsMap
      else if k = Some (KStr ''length'') \<and> isArray t then
        map snd (filter (\<lambda>(k', dep). k' = KStr ''length'' \<or> key_ge k' nv = Inr True) depsMap)
      else
        (case k of None \<Rightarrow> [] | Some k' \<Rightarrow> [dep_get depsMap k'])
        @ (case ty of
             ADD \<Rightarrow>
               if \<not> isArray t then
                 dep_get depsMap ITERATE_KEY
                   # (if isMap t then [dep_get depsMap MAP_KEY_ITERATE_KEY] else [])
               else if (case k of None \<Rightarrow> False | Some k' \<Rightarrow> isIntegerKey k') then
                 [dep_get depsMap (KStr ''length'')]
               else []
           | DELETE \<Rightarrow>
               if \<not> isArray t then
                 dep_get depsMap ITERATE_KEY
                   # (if isMap t then [dep_get depsMap MAP_KEY_ITERATE_KEY] else [])
               else []
           | SET \<Rightarrow> if isMap t then [dep_get depsMap ITERATE_KEY] else []
           | CLEAR \<Rightarrow> []))"

text \<open>
  Inside the run of an effect created with \<open>allowRecurse\<close>: \<open>s_rec_iter\<close> after it has
  listed the keys of \<open>o1\<close>, \<open>s_rec_arr\<close> after it has read \<open>arr[3]\<close>.
\<close>

definition s_rec_iter :: state where
  "s_rec_iter = track o1 ITERATE ITERATE_KEY (enter 0
     (createReactiveEffect [Track o1 ITERATE ITERATE_KEY, Trigger o1 ADD (Some ky) VUndef]
        True None None True init_state))"

definition s_rec_arr :: state where
  "s_rec_arr = track arr GET (KStr ''3'') (enter 0
     (createReactiveEffect [Track arr GET (KStr ''3''),
        Trigger arr SET (Some (KStr ''length'')) (VNum (Fin 1))] True None None True init_state))"

section \<open>Computed cells\<close>

text \<open>
  The constructor of \<open>ComputedRefImpl\<close>: a lazy effect around the getter, whose scheduler
  is the one of the cell; \<open>_dirty\<close> starts as true. (The setter of the cell only calls the
  function the user gave; it is not modelled.)
\<close>

definition computed :: "cmd list \<Rightarrow> state \<Rightarrow> state" where
  "computed getter s =
     (let s1 = createReactiveEffect getter True (Some (SchedComputed (length (computeds s)))) None False s
      in s1\<lparr> computeds := computeds s1 @
           [\<lparr> c_value = VUndef, c_dirty = True, c_effect = length (effects s) \<rparr>] \<rparr>)"

text \<open>
  \<open>s_comp\<close>: after \<open>c = computed(() => { o1.x; return 42 })\<close>. \<open>s_comp_read\<close>: after a
  first read of \<open>c.value\<close>. \<open>s_comp_stopped\<close>: after \<open>stop(c.effect)\<close>.
\<close>

definition getter42 :: "cmd list" where
  "getter42 = [Track o1 GET kx, Return (Lit (VNum (Fin 42)))]"

definition s_comp :: state where
  "s_comp = computed getter42 init_state"

definition s_comp_read :: state where
  "s_comp_read = final (computed_get (exec 3) 0 s_comp)"

definition s_comp_stopped :: state where
  "s_comp_stopped = final (stop (exec 2) 0 s_comp)"

text \<open>\<open>s_cons\<close>: \<open>s_comp\<close> after \<open>effect(() => c.value)\<close>.\<close>

definition s_cons :: state where
  "s_cons = final (exec 4 [Effect [Return (ComputedValue 0)] False None None False] s_comp)"

section \<open>Refs and the set trap\<close>

text \<open>
  Modelled from the spec: \<open>toRaw\<close> of the module \<open>reactive\<close>, which is not part of the
  sources: \<open>toRaw(proxy)\<close> is the target behind the proxy ("follows the RAW reserved
  key"), and any other value is returned as it is.
\<close>

fun toRaw :: "val \<Rightarrow> val" where
  "toRaw (VReactive t) = VObj t"
| "toRaw (VReadonly v) = toRaw v"
| "toRaw v = v"

text \<open>
  \<open>Object.is\<close>: two primitives are the same value when they are equal (\<open>NaN\<close> is \<open>NaN\<close>, and
  \<open>+0\<close> is not \<open>-0\<close>), two objects when they are the same object.
\<close>

fun same_value :: "val \<Rightarrow> val \<Rightarrow> bool" where
  "same_value (VArray i _) (VArray j _) = (i = j)"
| "same_value v w = (v = w)"

text \<open>
  Modelled from the spec: \<open>hasChanged\<close> of the shared helpers, which is not part of the
  sources: the comparison "with identity-with-NaN-equality semantics", \<open>!Object.is\<close>.
\<close>

definition hasChanged :: "val \<Rightarrow> val \<Rightarrow> bool" where
  "hasChanged v old = (\<not> same_value v old)"

text \<open>
  Modelled from the spec: \<open>isObject\<close> of the shared helpers, which is not part of the
  sources: the value is an object, not a primitive.
\<close>

fun isObject :: "val \<Rightarrow> bool" where
  "isObject (VObj _) = True"
| "isObject (VReactive _) = True"
| "isObject (VReadonly _) = True"
| "isObject (VRef _) = True"
| "isObject (VArray _ _) = True"
| "isObject _ = False"

text \<open>
  Modelled from the spec: \<open>reactive\<close> of the module \<open>reactive\<close>, which is not part of the
  sources: "mutable deep proxy; idempotent; refuses to double-wrap". An object gets its one
  proxy and a proxy is returned as it is. The proxies of cells and of arrays given as
  values are not modelled: these are left as they are.
\<close>

fun reactive :: "val \<Rightarrow> val" where
  "reactive (VObj t) = VReactive t"
| "reactive v = v"

text \<open>\<open>convert\<close> and \<open>isRef\<close> of the module \<open>ref\<close>.\<close>

definition convert :: "val \<Rightarrow> val" where
  "convert v = (if isObject v then reactive v else v)"

fun isRef :: "val \<Rightarrow> bool" where
  "isRef (VRef _) = True"
| "isRef _ = False"

text \<open>
  \<open>RefImpl\<close>, and the state of a program: the state of the effect module, the cells, and
  the own properties of the objects (an array has its \<open>length\<close> among them).
\<close>

record RefImpl =
  r_rawValue :: val
  r_value :: val
  r_shallow :: bool

record world =
  rt :: state
  refs :: "RefImpl list"
  heap :: "target \<Rightarrow> (key \<times> val) list"

type_synonym wresult = "(completion \<times> world) option"

definition lift :: "world \<Rightarrow> result \<Rightarrow> wresult" where
  "lift w r = map_option (\<lambda>(c, s). (c, w\<lparr> rt := s \<rparr>)) r"

definition ref_target :: "nat \<Rightarrow> target" where
  "ref_target i = Target RefObject i"

text \<open>The constructor of \<open>RefImpl\<close> (through \<open>createRef\<close>, for a value that is not a ref).\<close>

definition RefImpl_new :: "val \<Rightarrow> bool \<Rightarrow> RefImpl" where
  "RefImpl_new rawValue shallow =
     \<lparr> r_rawValue = rawValue, r_value = (if shallow then rawValue else convert rawValue),
       r_shallow = shallow \<rparr>"

definition createRef :: "val \<Rightarrow> bool \<Rightarrow> world \<Rightarrow> val \<times> world" where
  "createRef rawValue shallow w =
     (if isRef rawValue then (rawValue, w)
      else (VRef (length (refs w)), w\<lparr> refs := refs w @ [RefImpl_new rawValue shallow] \<rparr>))"

text \<open>\<open>get value\<close> and \<open>set value\<close> of \<open>RefImpl\<close>.\<close>

definition ref_get :: "nat \<Rightarrow> world \<Rightarrow> val \<times> world" where
  "ref_get i w =
     (r_value (refs w ! i), w\<lparr> rt := track (ref_target i) GET (KStr ''value'') (rt w) \<rparr>)"

definition ref_set :: "runner \<Rightarrow> nat \<Rightarrow> val \<Rightarrow> world \<Rightarrow> wresult" where
  "ref_set ex i newVal w =
     (if hasChanged (toRaw newVal) (r_rawValue (refs w ! i)) then
        (let w1 = w\<lparr> refs := (refs w)[i := (refs w ! i)\<lparr>
                     r_rawValue := newVal,
                     r_value := (if r_shallow (refs w ! i) then newVal else convert newVal) \<rparr>] \<rparr>
         in lift w1 (trigger ex (ref_target i) SET (Some (KStr ''value'')) newVal (rt w1)))
      else Some (Next, w))"

text \<open>
  Objects as the set trap sees them. Every property is an own, writable data property:
  accessors, frozen objects and the prototype chain are not modelled. \<open>Reflect.set\<close>
  writes to the object behind the receiver; on an array, writing an index beyond the end
  moves \<open>length\<close>, and writing \<open>length\<close> removes the indices from it on (a value that is not
  an array length throws a \<open>RangeError\<close>).
\<close>

definition get_prop :: "world \<Rightarrow> target \<Rightarrow> key \<Rightarrow> val" where
  "get_prop w t k = (case map_of (heap w t) k of None \<Rightarrow> VUndef | Some v \<Rightarrow> v)"

definition hasOwn :: "world \<Rightarrow> target \<Rightarrow> key \<Rightarrow> bool" where
  "hasOwn w t k = (map_of (heap w t) k \<noteq> None)"

definition key_index :: "key \<Rightarrow> nat option" where
  "key_index k = (case k of KSym _ \<Rightarrow> None | KStr a \<Rightarrow> if isIntegerKey k then digits 10 a else None)"

definition array_length :: "world \<Rightarrow> target \<Rightarrow> nat" where
  "array_length w t =
     (case get_prop w t (KStr ''length'') of VNum (Fin q) \<Rightarrow> nat (floor q) | _ \<Rightarrow> 0)"

definition as_length :: "val \<Rightarrow> nat option" where
  "as_length v =
     (case v of
        VNum (Fin q) \<Rightarrow> if 0 \<le> q \<and> of_int (floor q) = q \<and> q < 2 ^ 32 then Some (nat (floor q)) else None
      | _ \<Rightarrow> None)"

definition write_prop :: "target \<Rightarrow> key \<Rightarrow> val \<Rightarrow> world \<Rightarrow> world" where
  "write_prop t k v w = w\<lparr> heap := (heap w)(t := map_set (heap w t) k v) \<rparr>"

definition Reflect_set :: "target \<Rightarrow> key \<Rightarrow> val \<Rightarrow> val \<Rightarrow> world \<Rightarrow> wresult" where
  "Reflect_set target k v receiver w =
     (case toRaw receiver of
        VObj t \<Rightarrow>
          if isArray t \<and> k = KStr ''length'' then
            (case as_length v of
               None \<Rightarrow> Some (Thrown, w)
             | Some n \<Rightarrow>
                 Some (Returned (VBool True),
                   write_prop t k v (w\<lparr> heap := (heap w)(t :=
                     filter (\<lambda>(k', _). case key_index k' of None \<Rightarrow> True | Some i \<Rightarrow> i < n)
                       (heap w t)) \<rparr>)))
          else if isArray t \<and> (case key_index k of None \<Rightarrow> False | Some i \<Rightarrow> array_length w t \<le> i) then
            Some (Returned (VBool True),
              write_prop t (KStr ''length'') (VNum (Fin (of_nat (Suc (the (key_index k))))))
                (write_prop t k v w))
          else Some (Returned (VBool True), write_prop t k v w)
      | _ \<Rightarrow> Some (Returned (VBool False), w))"

text \<open>
  \<open>createSetter\<close>, as the source has it. The \<open>else\<close> branch of \<open>if (!shallow)\<close> is opened
  for a comment and not closed before \<open>const hadKey\<close>:
  \<^verbatim>\<open>
    if (!shallow) {
      value = toRaw(value)
      if (!isArray(target) && isRef(oldValue) && !isRef(value)) {
        oldValue.value = value
        return true
      }
    } else {
      // in shallow mode, objects are set as-is regardless of reactive or not
    const hadKey = ...
    const result = Reflect.set(target, key, value, receiver)
    if (target === toRaw(receiver)) { ... trigger ... }
    return result
  }
  \<close>
  so the computation of \<open>hadKey\<close>, the underlying set, the trigger and \<open>return result\<close>
  belong to the shallow branch, and a call with \<open>shallow = false\<close> that does not assign
  through a ref reaches the end of the function and returns \<open>undefined\<close>.
\<close>

definition createSetter ::
  "bool \<Rightarrow> runner \<Rightarrow> target \<Rightarrow> key \<Rightarrow> val \<Rightarrow> val \<Rightarrow> world \<Rightarrow> wresult" where
  "createSetter shallow ex target k v receiver w =
     (let oldValue = get_prop w target k
      in if \<not> shallow then
           (let value = toRaw v
            in if \<not> isArray target \<and> isRef oldValue \<and> \<not> isRef value then
                 (case ref_set ex (case oldValue of VRef i \<Rightarrow> i | _ \<Rightarrow> 0) value w of
                    Some (Next, w') \<Rightarrow> Some (Returned (VBool True), w')
                  | r \<Rightarrow> r)
               else Some (Returned VUndef, w))
         else
           (let hadKey = (if isArray target \<and> isIntegerKey k
                          then the (key_index k) < array_length w target
                          else hasOwn w target k)
            in case Reflect_set target k v receiver w of
                 Some (Returned result, w1) \<Rightarrow>
                   if VObj target = toRaw receiver then
                     (if \<not> hadKey then
                        (case lift w1 (trigger ex target ADD (Some k) v (rt w1)) of
                           Some (Next, w2) \<Rightarrow> Some (Returned result, w2)
                         | r \<Rightarrow> r)
                      else if hasChanged v oldValue then
                        (case lift w1 (trigger ex target SET (Some k) v (rt w1)) of
                           Some (Next, w2) \<Rightarrow> Some (Returned result, w2)
                         | r \<Rightarrow> r)
                      else Some (Returned result, w1))
                   else Some (Returned result, w1)
               | r \<Rightarrow> r))"


definition w_ref :: world where
  "w_ref = (snd (createRef (VReactive o1) False \<lparr> rt = init_state, refs = [], heap = (\<lambda>_. []) \<rparr>))
     \<lparr> rt := final (exec 3 [Effect [Track (ref_target 0) GET (KStr ''value'')] False None None False]
                init_state) \<rparr>"

definition woutcome :: "wresult \<Rightarrow> completion option" where
  "woutcome r = map_option fst r"

definition wfinal :: "wresult \<Rightarrow> world" where
  "wfinal r = snd (the r)"

section \<open>Watchers\<close>








definition value_changed :: "val \<Rightarrow> val option \<Rightarrow> bool" where
  "value_changed newValue oldValue =
     (case oldValue of None \<Rightarrow> True | Some v \<Rightarrow> hasChanged newValue v)"










section \<open>Proofs: the dependency graph\<close>

lemma map_of_map_set: "map_of (map_set m k v) = (map_of m)(k \<mapsto> v)"
  by (induction m) (auto simp: fun_eq_iff)

lemma dep_get_map_set: "dep_get (map_set m k v) k' = (if k' = k then v else dep_get m k')"
  by (simp add: dep_get_def map_of_map_set)

lemma dep_of_targetMap_upd:
  "dep_of (s\<lparr> targetMap := (targetMap s)(t \<mapsto> map_set (depsMap_of s t) k d) \<rparr>) t' k' =
     (if t' = t \<and> k' = k then d else dep_of s t' k')"
  by (simp add: dep_of_def depsMap_of_def dep_get_map_set)

lemma dep_of_track:
  "dep_of (track t ty k s) t' k' =
     (case activeEffect s of
        None \<Rightarrow> dep_of s t' k'
      | Some e \<Rightarrow>
          if shouldTrack s \<and> t' = t \<and> k' = k \<and> e \<notin> set (dep_of s t k)
          then dep_of s t k @ [e] else dep_of s t' k')"
  by (auto simp: track_def Let_def effect_update_def dep_of_def depsMap_of_def dep_get_map_set
      split: option.splits)

lemma effects_track:
  "effects (track t ty k s) =
     (case activeEffect s of
        None \<Rightarrow> effects s
      | Some e \<Rightarrow>
          if shouldTrack s \<and> e \<notin> set (dep_of s t k)
          then (effects s)[e := (effects s ! e)\<lparr> deps := deps (effects s ! e) @ [(t, k)] \<rparr>]
          else effects s)"
  by (auto simp: track_def Let_def effect_update_def dep_of_def depsMap_of_def
      split: option.splits)

lemma track_other [simp]:
  "effectStack (track t ty k s) = effectStack s"
  "activeEffect (track t ty k s) = activeEffect s"
  "shouldTrack (track t ty k s) = shouldTrack s"
  "trackStack (track t ty k s) = trackStack s"
  "computeds (track t ty k s) = computeds s"
  by (auto simp: track_def Let_def effect_update_def split: option.splits)

lemma wf_track: "wf s \<Longrightarrow> wf (track t ty k s)"
  unfolding wf_def graph_inv_def
  by (auto simp: dep_of_track effects_track nth_list_update split: option.splits)

lemma dep_of_dep_delete:
  "dep_of (dep_delete e d s) t k =
     (if (t, k) = d then removeAll e (dep_of s t k) else dep_of s t k)"
  by (cases d)
     (auto simp: dep_delete_def dep_of_def depsMap_of_def dep_get_def map_of_map_set
       split: option.splits)

lemma dep_delete_other [simp]:
  "effects (dep_delete e d s) = effects s"
  "effectStack (dep_delete e d s) = effectStack s"
  "activeEffect (dep_delete e d s) = activeEffect s"
  "shouldTrack (dep_delete e d s) = shouldTrack s"
  "trackStack (dep_delete e d s) = trackStack s"
  "computeds (dep_delete e d s) = computeds s"
  "trace (dep_delete e d s) = trace s"
  by (auto simp: dep_delete_def split: option.splits)

lemma fold_dep_delete_other [simp]:
  "effects (fold (dep_delete e) ds s) = effects s"
  "effectStack (fold (dep_delete e) ds s) = effectStack s"
  "activeEffect (fold (dep_delete e) ds s) = activeEffect s"
  "shouldTrack (fold (dep_delete e) ds s) = shouldTrack s"
  "trackStack (fold (dep_delete e) ds s) = trackStack s"
  "computeds (fold (dep_delete e) ds s) = computeds s"
  "trace (fold (dep_delete e) ds s) = trace s"
  by (induction ds arbitrary: s; simp)+

lemma dep_of_fold_dep_delete:
  "dep_of (fold (dep_delete e) ds s) t k =
     (if (t, k) \<in> set ds then removeAll e (dep_of s t k) else dep_of s t k)"
  by (induction ds arbitrary: s) (auto simp: dep_of_dep_delete)

lemma dep_of_effect_update [simp]: "dep_of (effect_update e f s) t k = dep_of s t k"
  by (simp add: effect_update_def dep_of_def depsMap_of_def)

lemma dep_of_cleanup:
  "dep_of (cleanup e s) t k =
     (if (t, k) \<in> set (deps (effects s ! e)) then removeAll e (dep_of s t k) else dep_of s t k)"
  by (simp add: cleanup_def dep_of_fold_dep_delete)

lemma effects_cleanup:
  "effects (cleanup e s) = (effects s)[e := (effects s ! e)\<lparr> deps := [] \<rparr>]"
  by (simp add: cleanup_def effect_update_def)

lemma cleanup_other [simp]:
  "effectStack (cleanup e s) = effectStack s"
  "activeEffect (cleanup e s) = activeEffect s"
  "shouldTrack (cleanup e s) = shouldTrack s"
  "trackStack (cleanup e s) = trackStack s"
  "computeds (cleanup e s) = computeds s"
  "trace (cleanup e s) = trace s"
  by (simp_all add: cleanup_def effect_update_def)

lemma graph_invD:
  "graph_inv s \<Longrightarrow> e \<in> set (dep_of s t k) \<longleftrightarrow>
     e < length (effects s) \<and> (t, k) \<in> set (deps (effects s ! e))"
  unfolding graph_inv_def by blast

lemma cleanup_unsubscribed:
  "graph_inv s \<Longrightarrow> e \<notin> set (dep_of (cleanup e s) t k)"
  by (simp add: dep_of_cleanup graph_invD)

lemma graph_inv_cleanup: "graph_inv s \<Longrightarrow> graph_inv (cleanup e s)"
proof -
  assume g: "graph_inv s"
  show ?thesis
    unfolding graph_inv_def
  proof (intro allI)
    fix e' t k
    show "e' \<in> set (dep_of (cleanup e s) t k) \<longleftrightarrow>
       e' < length (effects (cleanup e s)) \<and> (t, k) \<in> set (deps (effects (cleanup e s) ! e'))"
      using graph_invD [OF g, of e' t k] graph_invD [OF g, of e t k]
      by (cases "e' = e") (auto simp: dep_of_cleanup effects_cleanup)
  qed
qed

lemma wf_cleanup: "wf s \<Longrightarrow> wf (cleanup e s)"
  unfolding wf_def by (simp add: graph_inv_cleanup effects_cleanup)

lemma closedD:
  assumes "closed R"
  shows "R s s"
    and "R a b \<Longrightarrow> R b c \<Longrightarrow> R a c"
    and "R s (track t ty k s)"
    and "R s (pauseTracking s)"
    and "R s (enableTracking s)"
    and "R s (resetTracking s)"
    and "e < length (effects s) \<Longrightarrow> \<not> active (effects s ! e)
        \<Longrightarrow> R s (s\<lparr> trace := trace s @ [EvRun e] \<rparr>)"
    and "e < length (effects s) \<Longrightarrow> active (effects s ! e) \<Longrightarrow> e \<notin> set (effectStack s)
        \<Longrightarrow> R (enter e s) s' \<Longrightarrow> R s (leave s')"
    and "e < length (effects s) \<Longrightarrow> R s (cleanup e s)"
    and "e < length (effects s) \<Longrightarrow> R s s'
        \<Longrightarrow> R s (effect_update e (\<lambda>r. r\<lparr> active := False \<rparr>) s')"
    and "R s (createReactiveEffect fn lz sch os ar s)"
    and "c' < length (computeds s) \<Longrightarrow> R s (computed_update c' (\<lambda>r. r\<lparr> c_dirty := True \<rparr>) s)"
    and "c' < length (computeds s) \<Longrightarrow> R s s'
        \<Longrightarrow> R s (computed_update c' (\<lambda>r. r\<lparr> c_value := v, c_dirty := False \<rparr>) s')"
    and "R s (s\<lparr> trace := trace s @ [EvSched e] \<rparr>)"
  using assms unfolding closed_def by simp_all

lemma preservesD: "preserves R ex \<Longrightarrow> ex fn s = Some (c, s') \<Longrightarrow> R s s'"
  unfolding preserves_def by blast

lemma call_rel:
  "preserves R ex \<Longrightarrow> call ex fn s = Some (c, s') \<Longrightarrow> R s s'"
  by (auto simp: call_def returned_def dest: preservesD split: option.splits completion.splits)

lemma discard_Some:
  "discard r = Some (c, s') \<Longrightarrow> \<exists>c'. r = Some (c', s')"
  by (auto simp: discard_def split: option.splits completion.splits)

lemma reactiveEffect_rel:
  assumes R: "closed R" and ex: "preserves R ex"
    and run: "reactiveEffect ex e s = Some (c, s')"
  shows "R s s'"
proof (cases "e < length (effects s)")
  case False
  with run show ?thesis by (simp add: reactiveEffect_def closedD(1) [OF R])
next
  case valid: True
  show ?thesis
  proof (cases "active (effects s ! e)")
    case False
    show ?thesis
    proof (cases "scheduler (effects s ! e) = None")
      case True
      with run valid False
      have "call ex (raw (effects s ! e)) (s\<lparr> trace := trace s @ [EvRun e] \<rparr>) = Some (c, s')"
        by (simp add: reactiveEffect_def)
      from call_rel [OF ex this] show ?thesis
        using closedD(2) [OF R] closedD(7) [OF R valid False] by blast
    next
      case False
      with run valid \<open>\<not> active (effects s ! e)\<close> show ?thesis
        by (simp add: reactiveEffect_def closedD(1) [OF R])
    qed
  next
    case act: True
    show ?thesis
    proof (cases "e \<in> set (effectStack s)")
      case True
      with run valid act show ?thesis by (simp add: reactiveEffect_def closedD(1) [OF R])
    next
      case False
      with run valid act obtain s1 where
        body: "call ex (raw (effects s ! e)) (enter e s) = Some (c, s1)" and s': "s' = leave s1"
        by (auto simp: reactiveEffect_def split: option.splits)
      from call_rel [OF ex body] have "R (enter e s) s1" .
      with closedD(8) [OF R valid act False] show ?thesis by (simp add: s')
    qed
  qed
qed

lemma effect_rel:
  assumes R: "closed R" and ex: "preserves R ex"
    and run: "effect ex fn lz sch os ar s = Some (c, s')"
  shows "R s s'"
proof (cases lz)
  case True
  with run closedD(11) [OF R] show ?thesis
    by (auto simp: effect_def Let_def)
next
  case False
  with run obtain c' where
    "reactiveEffect ex (length (effects s)) (createReactiveEffect fn lz sch os ar s) = Some (c', s')"
    by (auto simp: effect_def Let_def split: option.splits completion.splits)
  from reactiveEffect_rel [OF R ex this] show ?thesis
    using closedD(2) [OF R] closedD(11) [OF R] by blast
qed

lemma stop_rel:
  assumes R: "closed R" and ex: "preserves R ex"
    and run: "stop ex e s = Some (c, s')"
  shows "R s s'"
proof (cases "e < length (effects s) \<and> active (effects s ! e)")
  case False
  with run show ?thesis by (auto simp: stop_def closedD(1) [OF R] split: if_splits)
next
  case True
  then have valid: "e < length (effects s)" and act: "active (effects s ! e)" by simp_all
  show ?thesis
  proof (cases "onStop (effects s ! e)")
    case None
    with run valid act have "s' = effect_update e (\<lambda>r. r\<lparr> active := False \<rparr>) (cleanup e s)"
      by (simp add: stop_def)
    with closedD(10) [OF R valid closedD(9) [OF R valid]] show ?thesis by simp
  next
    case (Some hook)
    with run valid act obtain c1 s1 where
      hook: "call ex hook (cleanup e s) = Some (c1, s1)"
      and s': "s' = s1 \<or> s' = effect_update e (\<lambda>r. r\<lparr> active := False \<rparr>) s1"
      by (auto simp: stop_def split: option.splits completion.splits)
    from call_rel [OF ex hook] closedD(9) [OF R valid] have "R s s1"
      using closedD(2) [OF R] by blast
    with s' closedD(10) [OF R valid] show ?thesis by blast
  qed
qed

lemma call_scheduler_rel:
  assumes R: "closed R" and ex: "preserves R ex"
    and run: "call_scheduler ex sch s = Some (c, s')"
  shows "R s s'"
proof (cases sch)
  case (SchedUser fn)
  with run show ?thesis
    by (auto simp: call_scheduler_def dest!: discard_Some preservesD [OF ex])
next
  case (SchedComputed cid)
  show ?thesis
  proof (cases "cid < length (computeds s) \<and> \<not> c_dirty (computeds s ! cid)")
    case False
    with run SchedComputed show ?thesis
      by (auto simp: call_scheduler_def closedD(1) [OF R] split: if_splits)
  next
    case True
    with run SchedComputed have
      "R (computed_update cid (\<lambda>r. r\<lparr> c_dirty := True \<rparr>) s) s'"
      by (auto simp: call_scheduler_def dest!: discard_Some preservesD [OF ex])
    with True closedD(12) [OF R, of cid s] show ?thesis
      using closedD(2) [OF R] by blast
  qed
qed

lemma run_rel:
  assumes R: "closed R" and ex: "preserves R ex"
    and run: "run ex e s = Some (c, s')"
  shows "R s s'"
proof (cases "e < length (effects s)")
  case False
  with run show ?thesis by (simp add: run_def closedD(1) [OF R])
next
  case True
  show ?thesis
  proof (cases "scheduler (effects s ! e)")
    case None
    with run True show ?thesis
      by (auto simp: run_def dest!: discard_Some reactiveEffect_rel [OF R ex])
  next
    case (Some sch)
    with run True have "R (s\<lparr> trace := trace s @ [EvSched e] \<rparr>) s'"
      by (auto simp: run_def dest!: call_scheduler_rel [OF R ex])
    then show ?thesis
      using closedD(2) [OF R] closedD(14) [OF R] by blast
  qed
qed

lemma forEach_run_rel:
  assumes R: "closed R" and ex: "preserves R ex"
  shows "forEach_run ex es s = Some (c, s') \<Longrightarrow> R s s'"
proof (induction es arbitrary: s)
  case Nil
  then show ?case by (simp add: closedD(1) [OF R])
next
  case (Cons e es)
  from Cons.prems obtain c1 s1 where
    r: "run ex e s = Some (c1, s1)"
    and rest: "(c1 = Next \<and> forEach_run ex es s1 = Some (c, s')) \<or> s' = s1"
    by (auto split: option.splits completion.splits)
  from run_rel [OF R ex r] have "R s s1" .
  with rest Cons.IH show ?case
    using closedD(2) [OF R] by blast
qed

lemma trigger_rel:
  assumes R: "closed R" and ex: "preserves R ex"
    and run: "trigger ex t ty k nv s = Some (c, s')"
  shows "R s s'"
  using run
  by (auto simp: trigger_def closedD(1) [OF R] dest: forEach_run_rel [OF R ex]
      split: option.splits sum.splits error.splits)

lemma computed_read_rel:
  assumes R: "closed R" and run: "computed_read cid s = Some (c, s')"
  shows "R s s'"
  using run by (auto simp: computed_read_def Let_def closedD(3) [OF R])

lemma computed_get_rel:
  assumes R: "closed R" and ex: "preserves R ex"
    and run: "computed_get ex cid s = Some (c, s')"
  shows "R s s'"
proof (cases "cid < length (computeds s) \<and> c_dirty (computeds s ! cid)")
  case False
  with run show ?thesis
    by (auto simp: computed_get_def closedD(1) [OF R] dest: computed_read_rel [OF R]
        split: if_splits)
next
  case True
  with run obtain c1 s1 where
    eff: "reactiveEffect ex (c_effect (computeds s ! cid)) s = Some (c1, s1)"
    by (cases "reactiveEffect ex (c_effect (computeds s ! cid)) s") (auto simp: computed_get_def)
  with run True have
    rest: "s' = s1 \<or> (\<exists>v. computed_read cid
        (computed_update cid (\<lambda>r. r\<lparr> c_value := v, c_dirty := False \<rparr>) s1) = Some (c, s'))"
    by (cases c1) (auto simp: computed_get_def)
  from reactiveEffect_rel [OF R ex eff] have 1: "R s s1" .
  from rest show ?thesis
  proof
    assume "s' = s1" with 1 show ?thesis by simp
  next
    assume "\<exists>v. computed_read cid
        (computed_update cid (\<lambda>r. r\<lparr> c_value := v, c_dirty := False \<rparr>) s1) = Some (c, s')"
    then obtain v where rd: "computed_read cid
        (computed_update cid (\<lambda>r. r\<lparr> c_value := v, c_dirty := False \<rparr>) s1) = Some (c, s')" ..
    from True 1 closedD(13) [OF R, of cid s s1 v]
    have "R s (computed_update cid (\<lambda>r. r\<lparr> c_value := v, c_dirty := False \<rparr>) s1)" by simp
    with computed_read_rel [OF R rd] show ?thesis
      using closedD(2) [OF R] by blast
  qed
qed

lemma step_rel:
  assumes R: "closed R" and ex: "preserves R ex"
    and run: "step ex cm s = Some (c, s')"
  shows "R s s'"
proof (cases cm)
  case (Return x)
  with run show ?thesis
    by (cases x) (auto simp: closedD(1) [OF R] dest: computed_get_rel [OF R ex])
next
  case (Guarded fn)
  with run show ?thesis
    by (auto dest: preservesD [OF ex] split: option.splits)
qed (use run in \<open>auto simp: closedD(1,3,4,5,6) [OF R]
       dest!: discard_Some
       dest: trigger_rel [OF R ex] reactiveEffect_rel [OF R ex] stop_rel [OF R ex]
         effect_rel [OF R ex]\<close>)

lemma steps_rel:
  assumes R: "closed R" and ex: "preserves R ex"
  shows "steps ex cs s = Some (c, s') \<Longrightarrow> R s s'"
proof (induction cs arbitrary: s)
  case Nil
  then show ?case by (simp add: closedD(1) [OF R])
next
  case (Cons cm cs)
  from Cons.prems obtain c1 s1 where
    r: "step ex cm s = Some (c1, s1)"
    and rest: "(c1 = Next \<and> steps ex cs s1 = Some (c, s')) \<or> s' = s1"
    by (auto split: option.splits completion.splits)
  from step_rel [OF R ex r] have "R s s1" .
  with rest Cons.IH show ?case
    using closedD(2) [OF R] by blast
qed

lemma preserves_exec: "closed R \<Longrightarrow> preserves R (exec n)"
proof (induction n)
  case 0
  show ?case by (simp add: preserves_def)
next
  case (Suc n)
  then have "preserves R (exec n)" by simp
  with Suc.prems show ?case
    unfolding preserves_def [of R "exec (Suc n)"] by (auto dest: steps_rel)
qed

lemma wf_tracking:
  "wf s \<Longrightarrow> wf (pauseTracking s)"
  "wf s \<Longrightarrow> wf (enableTracking s)"
  "wf s \<Longrightarrow> wf (resetTracking s)"
  "wf s \<Longrightarrow> wf (s\<lparr> trace := tr \<rparr>)"
  by (auto simp: wf_def graph_inv_def dep_of_def depsMap_of_def pauseTracking_def
      enableTracking_def resetTracking_def split: list.splits)

lemma tracking_other [simp]:
  "effects (pauseTracking s) = effects s"
  "effects (enableTracking s) = effects s"
  "effects (resetTracking s) = effects s"
  "computeds (pauseTracking s) = computeds s"
  "computeds (enableTracking s) = computeds s"
  "computeds (resetTracking s) = computeds s"
  "effectStack (pauseTracking s) = effectStack s"
  "effectStack (enableTracking s) = effectStack s"
  "effectStack (resetTracking s) = effectStack s"
  "activeEffect (pauseTracking s) = activeEffect s"
  "activeEffect (enableTracking s) = activeEffect s"
  "activeEffect (resetTracking s) = activeEffect s"
  "trace (pauseTracking s) = trace s"
  "trace (enableTracking s) = trace s"
  "trace (resetTracking s) = trace s"
  by (auto simp: pauseTracking_def enableTracking_def resetTracking_def split: list.splits)

lemma dep_of_tracking [simp]:
  "dep_of (pauseTracking s) t k = dep_of s t k"
  "dep_of (enableTracking s) t k = dep_of s t k"
  "dep_of (resetTracking s) t k = dep_of s t k"
  by (auto simp: dep_of_def depsMap_of_def pauseTracking_def enableTracking_def
      resetTracking_def split: list.splits)

lemma length_effects_track [simp]: "length (effects (track t ty k s)) = length (effects s)"
  by (simp add: effects_track split: option.splits)

lemma length_effects_cleanup [simp]: "length (effects (cleanup e s)) = length (effects s)"
  by (simp add: effects_cleanup)

lemma enter_simps:
  "effects (enter e s) = effects (cleanup e s)"
  "effectStack (enter e s) = e # effectStack s"
  "activeEffect (enter e s) = Some e"
  "shouldTrack (enter e s) = True"
  "trackStack (enter e s) = shouldTrack s # trackStack s"
  "computeds (enter e s) = computeds s"
  "trace (enter e s) = trace s @ [EvRun e]"
  "dep_of (enter e s) t k = dep_of (cleanup e s) t k"
  by (simp_all add: enter_def Let_def enableTracking_def dep_of_def depsMap_of_def)

lemma leave_simps:
  "effects (leave s) = effects s"
  "effectStack (leave s) = tl (effectStack s)"
  "computeds (leave s) = computeds s"
  "trace (leave s) = trace s"
  "dep_of (leave s) t k = dep_of s t k"
  by (simp_all add: leave_def Let_def resetTracking_def dep_of_def depsMap_of_def
      split: list.splits)

lemma activeEffect_leave:
  "activeEffect (leave s) = (case tl (effectStack s) of [] \<Rightarrow> None | e # _ \<Rightarrow> Some e)"
  by (cases "trackStack s"; cases "tl (effectStack s)")
     (simp_all add: leave_def Let_def resetTracking_def)

lemma deps_nth_deactivate [simp]:
  "deps ((es[e := (es ! e)\<lparr> active := False \<rparr>]) ! e') = deps (es ! e')"
  by (cases "e = e'"; cases "e < length es"; simp add: list_update_beyond)

lemma effect_update_simps [simp]:
  "length (effects (effect_update e f s)) = length (effects s)"
  "computeds (effect_update e f s) = computeds s"
  "effectStack (effect_update e f s) = effectStack s"
  "activeEffect (effect_update e f s) = activeEffect s"
  "shouldTrack (effect_update e f s) = shouldTrack s"
  "trackStack (effect_update e f s) = trackStack s"
  "trace (effect_update e f s) = trace s"
  by (simp_all add: effect_update_def)

lemma computed_update_simps [simp]:
  "effects (computed_update c f s) = effects s"
  "length (computeds (computed_update c f s)) = length (computeds s)"
  "effectStack (computed_update c f s) = effectStack s"
  "activeEffect (computed_update c f s) = activeEffect s"
  "shouldTrack (computed_update c f s) = shouldTrack s"
  "trackStack (computed_update c f s) = trackStack s"
  "trace (computed_update c f s) = trace s"
  "dep_of (computed_update c f s) t k = dep_of s t k"
  by (simp_all add: computed_update_def dep_of_def depsMap_of_def)

lemma create_simps [simp]:
  "effects (createReactiveEffect fn lz sch os ar s) = effects s @ [new_effect fn lz sch os ar]"
  "computeds (createReactiveEffect fn lz sch os ar s) = computeds s"
  "effectStack (createReactiveEffect fn lz sch os ar s) = effectStack s"
  "activeEffect (createReactiveEffect fn lz sch os ar s) = activeEffect s"
  "shouldTrack (createReactiveEffect fn lz sch os ar s) = shouldTrack s"
  "trackStack (createReactiveEffect fn lz sch os ar s) = trackStack s"
  "trace (createReactiveEffect fn lz sch os ar s) = trace s"
  "dep_of (createReactiveEffect fn lz sch os ar s) t k = dep_of s t k"
  by (simp_all add: createReactiveEffect_def dep_of_def depsMap_of_def)

lemma wf_enter: "wf s \<Longrightarrow> e < length (effects s) \<Longrightarrow> wf (enter e s)"
  using wf_cleanup [of s e]
  by (auto simp: wf_def graph_inv_def enter_simps)

lemma wf_leave: "wf s \<Longrightarrow> wf (leave s)"
  by (cases "effectStack s")
     (auto simp: wf_def graph_inv_def leave_simps activeEffect_leave split: list.splits)

lemma wf_deactivate: "wf s \<Longrightarrow> wf (effect_update e (\<lambda>r. r\<lparr> active := False \<rparr>) s)"
  unfolding wf_def graph_inv_def
  by (simp add: effect_update_def dep_of_def depsMap_of_def)

lemma wf_create: "wf s \<Longrightarrow> wf (createReactiveEffect fn lz sch os ar s)"
  unfolding wf_def graph_inv_def
  by (auto simp: createReactiveEffect_def new_effect_def dep_of_def depsMap_of_def nth_append)

lemma wf_computed_update: "wf s \<Longrightarrow> wf (computed_update c f s)"
  unfolding wf_def graph_inv_def
  by (auto simp: computed_update_def dep_of_def depsMap_of_def)

lemma closed_wf_rel: "closed wf_rel"
  unfolding closed_def wf_rel_def
  by (auto simp: wf_track wf_tracking wf_cleanup wf_enter wf_leave wf_deactivate wf_create
      wf_computed_update enter_simps leave_simps)

lemma trk_rel_refl: "trk_rel s s"
  by (simp add: trk_rel_def)

lemma trk_rel_trans: "trk_rel a b \<Longrightarrow> trk_rel b c \<Longrightarrow> trk_rel a c"
proof -
  assume "trk_rel a b" "trk_rel b c"
  then obtain tr1 tr2 where
    1: "trace b = trace a @ tr1"
      "\<forall>e t k. (t, k) \<in> set (deps_of b e) \<longrightarrow> (t, k) \<in> set (deps_of a e) \<or> EvTrack e t k \<in> set tr1"
    and 2: "trace c = trace b @ tr2"
      "\<forall>e t k. (t, k) \<in> set (deps_of c e) \<longrightarrow> (t, k) \<in> set (deps_of b e) \<or> EvTrack e t k \<in> set tr2"
    unfolding trk_rel_def by blast
  have "trace c = trace a @ (tr1 @ tr2)" using 1(1) 2(1) by simp
  moreover have "\<forall>e t k. (t, k) \<in> set (deps_of c e) \<longrightarrow>
      (t, k) \<in> set (deps_of a e) \<or> EvTrack e t k \<in> set (tr1 @ tr2)"
    using 1(2) 2(2) by (metis Un_iff set_append)
  ultimately show ?thesis unfolding trk_rel_def by blast
qed

lemma trk_rel_same:
  "trace s' = trace s \<Longrightarrow> (\<And>e. set (deps_of s' e) \<subseteq> set (deps_of s e)) \<Longrightarrow> trk_rel s s'"
  unfolding trk_rel_def by (intro exI [of _ "[]"]) auto

lemma nth_list_update_gen:
  "(xs[i := x]) ! j = (if i = j \<and> i < length xs then x else xs ! j)"
  by (cases "i < length xs"; cases "i = j"; simp add: list_update_beyond)

lemma deps_of_track:
  "(t', k') \<in> set (deps_of (track t ty k s) e) \<Longrightarrow>
     (t', k') \<in> set (deps_of s e) \<or>
     (t' = t \<and> k' = k \<and> trace (track t ty k s) = trace s @ [EvTrack e t k])"
  by (auto simp: deps_of_def effects_track track_def Let_def effect_update_def
      nth_list_update_gen split: option.splits if_splits)

lemma trace_track:
  "trace (track t ty k s) = trace s \<or> (\<exists>e. trace (track t ty k s) = trace s @ [EvTrack e t k])"
  by (auto simp: track_def Let_def effect_update_def split: option.splits)

lemma trk_rel_track: "trk_rel s (track t ty k s)"
proof -
  from trace_track [of t ty k s] show ?thesis
  proof
    assume same: "trace (track t ty k s) = trace s"
    show ?thesis
      by (rule trk_rel_same [OF same]) (use deps_of_track [of _ _ t ty k s] same in auto)
  next
    assume "\<exists>e. trace (track t ty k s) = trace s @ [EvTrack e t k]"
    then obtain a where tr: "trace (track t ty k s) = trace s @ [EvTrack a t k]" ..
    show ?thesis
      unfolding trk_rel_def
      by (rule exI [of _ "[EvTrack a t k]"])
         (use tr deps_of_track [of _ _ t ty k s] in auto)
  qed
qed

lemma deps_of_simps [simp]:
  "deps_of (pauseTracking s) e = deps_of s e"
  "deps_of (enableTracking s) e = deps_of s e"
  "deps_of (resetTracking s) e = deps_of s e"
  "deps_of (s\<lparr> trace := tr \<rparr>) e = deps_of s e"
  "deps_of (leave s) e = deps_of s e"
  "deps_of (computed_update c f s) e = deps_of s e"
  "deps_of (effect_update e' (\<lambda>r. r\<lparr> active := False \<rparr>) s) e = deps_of s e"
  by (simp_all add: deps_of_def leave_simps effect_update_def)

lemma deps_of_cleanup: "deps_of (cleanup e' s) e = (if e = e' then [] else deps_of s e)"
  by (simp add: deps_of_def effects_cleanup)

lemma deps_of_enter: "deps_of (enter e' s) e = (if e = e' then [] else deps_of s e)"
  by (simp add: deps_of_def enter_simps effects_cleanup)

lemma deps_of_create:
  "deps_of (createReactiveEffect fn lz sch os ar s) e = deps_of s e"
  by (simp add: deps_of_def nth_append new_effect_def)

lemma trk_rel_append: "trk_rel s s' \<Longrightarrow> trace s'' = trace s' @ tr' \<Longrightarrow>
    (\<And>e. set (deps_of s'' e) \<subseteq> set (deps_of s' e)) \<Longrightarrow> trk_rel s s''"
proof -
  assume a: "trk_rel s s'" and b: "trace s'' = trace s' @ tr'"
    and c: "\<And>e. set (deps_of s'' e) \<subseteq> set (deps_of s' e)"
  have "trk_rel s' s''"
    unfolding trk_rel_def using b c by (intro exI [of _ tr']) auto
  with a show ?thesis by (rule trk_rel_trans)
qed

lemma closed_trk_rel: "closed trk_rel"
proof -
  have enter: "trk_rel s (enter e s)" for e s
    by (rule trk_rel_append [OF trk_rel_refl, of _ _ "[EvRun e]"])
       (simp_all add: enter_simps deps_of_enter)
  have leave: "trk_rel s' (leave s')" for s'
    by (rule trk_rel_same) (simp_all add: leave_simps)
  have bracket: "trk_rel (enter e s) s' \<Longrightarrow> trk_rel s (leave s')" for e s s'
    using enter leave trk_rel_trans by blast
  have trans: "\<forall>a b c. trk_rel a b \<longrightarrow> trk_rel b c \<longrightarrow> trk_rel a c"
    using trk_rel_trans by blast
  have "trk_rel s (cleanup e s)" for e s
    by (rule trk_rel_same) (simp_all add: deps_of_cleanup)
  moreover have "trk_rel s s' \<Longrightarrow> trk_rel s (effect_update e (\<lambda>r. r\<lparr> active := False \<rparr>) s')" for e s s'
    by (erule trk_rel_append [of _ _ _ "[]"]) simp_all
  moreover have "trk_rel s s' \<Longrightarrow> trk_rel s (computed_update c f s')" for c f s s'
    by (erule trk_rel_append [of _ _ _ "[]"]) simp_all
  moreover have "trk_rel s (pauseTracking s)" "trk_rel s (enableTracking s)"
      "trk_rel s (resetTracking s)" for s
    by (rule trk_rel_same; simp)+
  moreover have "trk_rel s (s\<lparr> trace := trace s @ [ev] \<rparr>)" for s ev
    by (rule trk_rel_append [OF trk_rel_refl, of _ _ "[ev]"]) simp_all
  moreover have "trk_rel s (createReactiveEffect fn lz sch os ar s)" for fn lz sch os ar s
    by (rule trk_rel_same) (simp_all add: deps_of_create)
  ultimately show ?thesis
    unfolding closed_def
    by (simp add: trk_rel_refl trk_rel_track bracket trans)
qed

lemma wf_init: "wf init_state"
  by (simp add: wf_def graph_inv_def init_state_def dep_of_def depsMap_of_def dep_get_def)

lemma exec_wf_rel: "exec n fn s = Some (c, s') \<Longrightarrow> wf_rel s s'"
  using preserves_exec [OF closed_wf_rel] by (rule preservesD)


lemma drop_trace [simp]: "trace s' = trace s @ tr \<Longrightarrow> drop (length (trace s)) (trace s') = tr"
  by simp

lemma trk_relD:
  assumes "trk_rel s s'" and "(t, k) \<in> set (deps_of s' e)"
  shows "(t, k) \<in> set (deps_of s e) \<or> EvTrack e t k \<in> set (drop (length (trace s)) (trace s'))"
proof -
  from assms(1) obtain tr where tr: "trace s' = trace s @ tr"
    and sub: "\<forall>e t k. (t, k) \<in> set (deps_of s' e) \<longrightarrow>
           (t, k) \<in> set (deps_of s e) \<or> EvTrack e t k \<in> set tr"
    unfolding trk_rel_def by blast
  from sub assms(2) have "(t, k) \<in> set (deps_of s e) \<or> EvTrack e t k \<in> set tr" by blast
  with tr show ?thesis by simp
qed

lemma call_not_Next [simp]: "call ex fn s \<noteq> Some (Next, s')"
  by (auto simp: call_def returned_def split: option.splits completion.splits)

lemma stop_active:
  assumes valid: "e < length (effects s)" and act: "active (effects s ! e)"
    and run: "stop (exec n) e s = Some (Next, s')"
  shows "e < length (effects s') \<and> \<not> active (effects s' ! e) \<and>
    (onStop (effects s ! e) = None \<longrightarrow> deps (effects s' ! e) = []) \<and>
    (\<forall>t k. (t, k) \<in> set (deps (effects s' ! e)) \<longrightarrow>
       EvTrack e t k \<in> set (drop (length (trace s)) (trace s')))"
proof (cases "onStop (effects s ! e)")
  case None
  with run valid act have "s' = effect_update e (\<lambda>r. r\<lparr> active := False \<rparr>) (cleanup e s)"
    by (simp add: stop_def)
  with valid None show ?thesis
    by (simp add: effect_update_def effects_cleanup)
next
  case (Some hook)
  with run valid act obtain v s1 where
    hook: "call (exec n) hook (cleanup e s) = Some (Returned v, s1)"
    and s': "s' = effect_update e (\<lambda>r. r\<lparr> active := False \<rparr>) s1"
    by (auto simp: stop_def split: option.splits completion.splits)
  have "wf_rel (cleanup e s) s1"
    using call_rel [OF preserves_exec [OF closed_wf_rel] hook] .
  then have len: "e < length (effects s1)"
    using valid by (simp add: wf_rel_def)
  have "trk_rel (cleanup e s) s1"
    using call_rel [OF preserves_exec [OF closed_trk_rel] hook] .
  from trk_relD [OF this, of _ _ e]
  have "\<forall>t k. (t, k) \<in> set (deps (effects s1 ! e)) \<longrightarrow>
       EvTrack e t k \<in> set (drop (length (trace s)) (trace s1))"
    using len valid by (fastforce simp: deps_of_def effects_cleanup)
  with len Some show ?thesis
    by (simp add: s' effect_update_def)
qed

lemma stop_idempotent:
  assumes run: "stop (exec n) e s = Some (Next, s')"
  shows "stop (exec m) e s' = Some (Next, s')"
proof (cases "e < length (effects s) \<and> active (effects s ! e)")
  case True
  with stop_active [OF _ _ run] show ?thesis by (simp add: stop_def)
next
  case False
  with run have "s' = s" "e < length (effects s)" "\<not> active (effects s ! e)"
    by (auto simp: stop_def split: if_splits)
  then show ?thesis by (simp add: stop_def)
qed

lemma wf_dep_iff:
  "wf s \<Longrightarrow> e < length (effects s) \<Longrightarrow>
     e \<in> set (dep_of s t k) \<longleftrightarrow> (t, k) \<in> set (deps (effects s ! e))"
  by (simp add: wf_def graph_invD)

text \<open>
  Claim C2, as the code has it. The invariant \<open>wf\<close> (a \<open>Dep\<close> contains \<open>E\<close> if and only if
  \<open>E.deps\<close> contains the \<open>Dep\<close>) is preserved by \<open>track\<close>, by any user code, by the
  invocation of an effect and by \<open>stop\<close>. \<open>stop\<close> is idempotent. After a \<open>stop(E)\<close> that
  found \<open>E\<close> active, \<open>E\<close> is subscribed only to what was tracked for it while the
  \<open>onStop\<close> hook ran: to nothing when there is no hook.
\<close>

theorem dep_invariant_preserved:
  assumes wf: "wf s"
  shows "wf (track t ty k s)
    \<and> (\<forall>fn c s'. exec n fn s = Some (c, s') \<longrightarrow> wf s')
    \<and> (\<forall>c s'. reactiveEffect (exec n) e s = Some (c, s') \<longrightarrow> wf s')
    \<and> (\<forall>c s'. stop (exec n) e s = Some (c, s') \<longrightarrow> wf s')
    \<and> (\<forall>s'. stop (exec n) e s = Some (Next, s') \<longrightarrow>
          stop (exec m) e s' = Some (Next, s') \<and>
          (active (effects s ! e) \<longrightarrow>
             (\<forall>t' k'. e \<in> set (dep_of s' t' k') \<or> (t', k') \<in> set (deps (effects s' ! e)) \<longrightarrow>
                EvTrack e t' k' \<in> set (drop (length (trace s)) (trace s'))) \<and>
             (onStop (effects s ! e) = None \<longrightarrow>
                (\<forall>t' k'. e \<notin> set (dep_of s' t' k')) \<and> deps (effects s' ! e) = [])))"
proof (intro conjI allI impI)
  show "wf (track t ty k s)" using wf by (rule wf_track)
next
  fix fn c s' assume "exec n fn s = Some (c, s')"
  from exec_wf_rel [OF this] wf show "wf s'" by (simp add: wf_rel_def)
next
  fix c s' assume "reactiveEffect (exec n) e s = Some (c, s')"
  from reactiveEffect_rel [OF closed_wf_rel preserves_exec [OF closed_wf_rel] this] wf
  show "wf s'" by (simp add: wf_rel_def)
next
  fix c s' assume "stop (exec n) e s = Some (c, s')"
  from stop_rel [OF closed_wf_rel preserves_exec [OF closed_wf_rel] this] wf
  show "wf s'" by (simp add: wf_rel_def)
next
  fix s' assume "stop (exec n) e s = Some (Next, s')"
  then show "stop (exec m) e s' = Some (Next, s')" by (rule stop_idempotent)
next
  fix s' t' k'
  assume run: "stop (exec n) e s = Some (Next, s')" and act: "active (effects s ! e)"
    and mem: "e \<in> set (dep_of s' t' k') \<or> (t', k') \<in> set (deps (effects s' ! e))"
  from run have valid: "e < length (effects s)" by (auto simp: stop_def split: if_splits)
  from stop_rel [OF closed_wf_rel preserves_exec [OF closed_wf_rel] run] wf
  have wf': "wf s'" by (simp add: wf_rel_def)
  from stop_active [OF valid act run] wf_dep_iff [OF wf', of e t' k'] mem
  show "EvTrack e t' k' \<in> set (drop (length (trace s)) (trace s'))" by blast
next
  fix s' t' k'
  assume run: "stop (exec n) e s = Some (Next, s')" and act: "active (effects s ! e)"
    and hook: "onStop (effects s ! e) = None"
  from run have valid: "e < length (effects s)" by (auto simp: stop_def split: if_splits)
  from stop_rel [OF closed_wf_rel preserves_exec [OF closed_wf_rel] run] wf
  have wf': "wf s'" by (simp add: wf_rel_def)
  from stop_active [OF valid act run] wf_dep_iff [OF wf', of e t' k'] hook
  show "e \<notin> set (dep_of s' t' k')" by simp
next
  fix s'
  assume run: "stop (exec n) e s = Some (Next, s')" and act: "active (effects s ! e)"
    and hook: "onStop (effects s ! e) = None"
  from run have valid: "e < length (effects s)" by (auto simp: stop_def split: if_splits)
  from stop_active [OF valid act run] hook
  show "deps (effects s' ! e) = []" by simp
qed

lemma outcome_final: "outcome r = Some c \<Longrightarrow> r = Some (c, final r)"
  by (cases r) (auto simp: outcome_def final_def)

lemma wf_s_sub: "wf s_sub"
proof -
  have "outcome (exec 3 [Effect [Track o1 GET kx] False None None False] init_state) = Some Next"
    by code_simp
  from exec_wf_rel [OF outcome_final [OF this]] wf_init show ?thesis
    by (simp add: wf_rel_def s_sub_def)
qed

theorem dep_invariant_preserved_witness:
  "wf s_sub
   \<and> wf (track o1 GET ky s_sub)
   \<and> outcome (exec 2 [Track o1 GET ky] s_sub) = Some Next
   \<and> wf (final (exec 2 [Track o1 GET ky] s_sub))
   \<and> outcome (reactiveEffect (exec 2) 0 s_sub) = Some (Returned VUndef)
   \<and> wf (final (reactiveEffect (exec 2) 0 s_sub))
   \<and> outcome (stop (exec 2) 0 s_sub) = Some Next
   \<and> wf (final (stop (exec 2) 0 s_sub))
   \<and> active (effects s_sub ! 0) \<and> onStop (effects s_sub ! 0) = None
   \<and> dep_of s_sub o1 kx = [0]
   \<and> dep_of (final (stop (exec 2) 0 s_sub)) o1 kx = []
   \<and> deps (effects (final (stop (exec 2) 0 s_sub)) ! 0) = []
   \<and> stop (exec 2) 0 (final (stop (exec 2) 0 s_sub))
       = Some (Next, final (stop (exec 2) 0 s_sub))"
proof -
  have a: "outcome (exec 2 [Track o1 GET ky] s_sub) = Some Next" by code_simp
  have b: "outcome (reactiveEffect (exec 2) 0 s_sub) = Some (Returned VUndef)" by code_simp
  have c: "outcome (stop (exec 2) 0 s_sub) = Some Next" by code_simp
  have d: "active (effects s_sub ! 0)" "onStop (effects s_sub ! 0) = None"
    "dep_of s_sub o1 kx = [0]" by code_simp+
  note inst = dep_invariant_preserved [OF wf_s_sub, of o1 GET ky 2 0 2]
  from inst outcome_final [OF a] have 1: "wf (final (exec 2 [Track o1 GET ky] s_sub))" by blast
  from inst outcome_final [OF b] have 2: "wf (final (reactiveEffect (exec 2) 0 s_sub))" by blast
  from inst outcome_final [OF c] have 3: "wf (final (stop (exec 2) 0 s_sub))" by blast
  from inst outcome_final [OF c] d have 4: "0 \<notin> set (dep_of (final (stop (exec 2) 0 s_sub)) o1 kx)"
    and 5: "deps (effects (final (stop (exec 2) 0 s_sub)) ! 0) = []"
    and 6: "stop (exec 2) 0 (final (stop (exec 2) 0 s_sub))
       = Some (Next, final (stop (exec 2) 0 s_sub))" by blast+
  have 7: "dep_of (final (stop (exec 2) 0 s_sub)) o1 kx = []" by code_simp
  from inst have 8: "wf (track o1 GET ky s_sub)" by blast
  from wf_s_sub a b c d 1 2 3 5 6 7 8 show ?thesis by simp
qed

text \<open>
  Claim C2 as it is stated fails where the \<open>onStop\<close> hook, which runs after the cleanup
  and before the effect is marked inactive, invokes the effect: the effect is subscribed
  again when \<open>stop\<close> returns.
\<close>

theorem stop_onStop_resubscribes:
  "wf s_hook
   \<and> outcome (stop (exec 3) 0 s_hook) = Some Next
   \<and> dep_of (final (stop (exec 3) 0 s_hook)) o1 kx = [0]
   \<and> deps (effects (final (stop (exec 3) 0 s_hook)) ! 0) = [(o1, kx)]"
proof -
  have "wf s_hook" unfolding s_hook_def by (rule wf_create [OF wf_init])
  moreover have "outcome (stop (exec 3) 0 s_hook) = Some Next
   \<and> dep_of (final (stop (exec 3) 0 s_hook)) o1 kx = [0]
   \<and> deps (effects (final (stop (exec 3) 0 s_hook)) ! 0) = [(o1, kx)]"
    by code_simp
  ultimately show ?thesis by simp
qed

section \<open>Proofs: the stacks of the effect runtime\<close>

lemma closed_stack_rel: "closed stack_rel"
  unfolding closed_def stack_rel_def
  by (simp add: enter_simps leave_simps activeEffect_leave top_of_def)

lemma steps_append_Throw:
  "steps ex (cs @ [Throw]) s =
     (case steps ex cs s of Some (Next, s') \<Rightarrow> Some (Thrown, s') | r \<Rightarrow> r)"
  by (induction cs arbitrary: s) (auto split: option.splits completion.splits)

lemma trackStack_leave:
  "trackStack (leave s) = tl (trackStack s)"
  "shouldTrack (leave s) = (case trackStack s of [] \<Rightarrow> True | b # _ \<Rightarrow> b)"
  by (simp_all add: leave_def Let_def resetTracking_def split: list.splits)

lemma final_Some [simp]: "final (Some (c, s)) = s"
  by (simp add: final_def)

lemma reactiveEffect_body:
  assumes "e < length (effects s)" "active (effects s ! e)" "e \<notin> set (effectStack s)"
  shows "reactiveEffect ex e s =
     (case call ex (raw (effects s ! e)) (enter e s) of
        None \<Rightarrow> None
      | Some (c, s1) \<Rightarrow> Some (c, leave s1))"
  using assms by (simp add: reactiveEffect_def)

lemma reactiveEffect_run:
  assumes "e < length (effects s)" "active (effects s ! e)" "e \<notin> set (effectStack s)"
    and "reactiveEffect ex e s = Some (c, s')"
  shows "\<exists>s1. call ex (raw (effects s ! e)) (enter e s) = Some (c, s1) \<and> s' = leave s1"
  using assms by (auto simp: reactiveEffect_def split: option.splits)

text \<open>
  Claim C9, as the code has it. An invocation of an active effect that is not on the effect
  stack is the run of \<open>fn\<close> from the state \<open>enter e s\<close> followed by \<open>leave\<close>: whenever \<open>fn\<close>
  ends in a state \<open>s1\<close>, by returning or by throwing, the invocation ends the same way in
  the state \<open>leave s1\<close>, where the effect stack is as before the invocation, the active
  effect is its top (none when it is empty), and the tracking-state stack is popped once,
  \<open>shouldTrack\<close> taking the popped value; this is the value before the invocation when
  \<open>fn\<close> left the tracking-state stack as it found it. Any user code leaves the effect
  stack as it found it, with the active effect at its top.
\<close>

theorem effect_stacks_released:
  "(e < length (effects s) \<and> active (effects s ! e) \<and> e \<notin> set (effectStack s) \<longrightarrow>
      reactiveEffect (exec n) e s =
        (case call (exec n) (raw (effects s ! e)) (enter e s) of
           None \<Rightarrow> None
         | Some (c, s1) \<Rightarrow> Some (c, leave s1))
      \<and> (\<forall>c s1. call (exec n) (raw (effects s ! e)) (enter e s) = Some (c, s1) \<longrightarrow>
           reactiveEffect (exec n) e s = Some (c, leave s1)
         \<and> effectStack s1 = e # effectStack s
         \<and> effectStack (leave s1) = effectStack s
         \<and> activeEffect (leave s1) = top_of (effectStack s)
         \<and> trackStack (leave s1) = tl (trackStack s1)
         \<and> shouldTrack (leave s1) = (case trackStack s1 of [] \<Rightarrow> True | b # _ \<Rightarrow> b)
         \<and> (trackStack s1 = trackStack (enter e s) \<longrightarrow>
               shouldTrack (leave s1) = shouldTrack s \<and> trackStack (leave s1) = trackStack s)))
   \<and> (exec n fn s = Some (c', s') \<longrightarrow>
        effectStack s' = effectStack s \<and>
        (activeEffect s = top_of (effectStack s) \<longrightarrow> activeEffect s' = top_of (effectStack s')))"
proof (intro conjI impI allI)
  assume a: "e < length (effects s) \<and> active (effects s ! e) \<and> e \<notin> set (effectStack s)"
  then show eq: "reactiveEffect (exec n) e s =
        (case call (exec n) (raw (effects s ! e)) (enter e s) of
           None \<Rightarrow> None
         | Some (c, s1) \<Rightarrow> Some (c, leave s1))"
    by (simp add: reactiveEffect_body)
  fix c s1
  assume body: "call (exec n) (raw (effects s ! e)) (enter e s) = Some (c, s1)"
  from call_rel [OF preserves_exec [OF closed_stack_rel] body]
  have st: "effectStack s1 = e # effectStack s"
    by (simp add: stack_rel_def enter_simps)
  show "reactiveEffect (exec n) e s = Some (c, leave s1)" using eq body by simp
  show "effectStack s1 = e # effectStack s" by (rule st)
  show "effectStack (leave s1) = effectStack s" using st by (simp add: leave_simps)
  show "activeEffect (leave s1) = top_of (effectStack s)"
    using st by (simp add: activeEffect_leave top_of_def)
  show "trackStack (leave s1) = tl (trackStack s1)" by (simp add: trackStack_leave)
  show "shouldTrack (leave s1) = (case trackStack s1 of [] \<Rightarrow> True | b # _ \<Rightarrow> b)"
    by (simp add: trackStack_leave)
  assume "trackStack s1 = trackStack (enter e s)"
  then show "shouldTrack (leave s1) = shouldTrack s" "trackStack (leave s1) = trackStack s"
    by (simp_all add: trackStack_leave enter_simps)
next
  assume "exec n fn s = Some (c', s')"
  from preservesD [OF preserves_exec [OF closed_stack_rel] this]
  show "effectStack s' = effectStack s" by (simp add: stack_rel_def)
next
  assume "exec n fn s = Some (c', s')" and "activeEffect s = top_of (effectStack s)"
  with preservesD [OF preserves_exec [OF closed_stack_rel]]
  show "activeEffect s' = top_of (effectStack s')" unfolding stack_rel_def by blast
qed

theorem effect_stacks_released_witness:
  "0 < length (effects s_throw) \<and> active (effects s_throw ! 0) \<and> 0 \<notin> set (effectStack s_throw)
   \<and> outcome (call (exec 2) (raw (effects s_throw ! 0)) (enter 0 s_throw)) = Some Thrown
   \<and> reactiveEffect (exec 2) 0 s_throw
       = Some (Thrown, leave (final (call (exec 2) (raw (effects s_throw ! 0)) (enter 0 s_throw))))
   \<and> effectStack (final (reactiveEffect (exec 2) 0 s_throw)) = []
   \<and> activeEffect (final (reactiveEffect (exec 2) 0 s_throw)) = None
   \<and> trackStack (final (call (exec 2) (raw (effects s_throw ! 0)) (enter 0 s_throw)))
        = trackStack (enter 0 s_throw)
   \<and> shouldTrack (final (reactiveEffect (exec 2) 0 s_throw)) = shouldTrack s_throw
   \<and> trackStack (final (reactiveEffect (exec 2) 0 s_throw)) = trackStack s_throw
   \<and> activeEffect s_throw = top_of (effectStack s_throw)
   \<and> outcome (exec 2 [Invoke 0] s_throw) = Some Thrown
   \<and> effectStack (final (exec 2 [Invoke 0] s_throw)) = effectStack s_throw
   \<and> activeEffect (final (exec 2 [Invoke 0] s_throw)) = top_of (effectStack (final (exec 2 [Invoke 0] s_throw)))"
proof -
  define s1 where "s1 = final (call (exec 2) (raw (effects s_throw ! 0)) (enter 0 s_throw))"
  have h: "0 < length (effects s_throw)" "active (effects s_throw ! 0)"
    "0 \<notin> set (effectStack s_throw)" "activeEffect s_throw = top_of (effectStack s_throw)"
    "effectStack s_throw = []"
    by code_simp+
  have r: "outcome (call (exec 2) (raw (effects s_throw ! 0)) (enter 0 s_throw)) = Some Thrown"
    by code_simp
  have x: "outcome (exec 2 [Invoke 0] s_throw) = Some Thrown" by code_simp
  have b: "trackStack (final (call (exec 2) (raw (effects s_throw ! 0)) (enter 0 s_throw)))
        = trackStack (enter 0 s_throw)" by code_simp
  have body: "call (exec 2) (raw (effects s_throw ! 0)) (enter 0 s_throw) = Some (Thrown, s1)"
    unfolding s1_def by (rule outcome_final [OF r])
  from effect_stacks_released [of 0 s_throw 2 "[]" Thrown s_throw] h(1,2,3) body
  have A: "reactiveEffect (exec 2) 0 s_throw = Some (Thrown, leave s1)"
      "effectStack (leave s1) = effectStack s_throw"
      "activeEffect (leave s1) = top_of (effectStack s_throw)"
    and B: "trackStack s1 = trackStack (enter 0 s_throw) \<longrightarrow>
      shouldTrack (leave s1) = shouldTrack s_throw \<and> trackStack (leave s1) = trackStack s_throw"
    by blast+
  from b have "trackStack s1 = trackStack (enter 0 s_throw)" by (simp add: s1_def)
  with A B h(5)
  have 1: "effectStack (final (reactiveEffect (exec 2) 0 s_throw)) = []
   \<and> activeEffect (final (reactiveEffect (exec 2) 0 s_throw)) = None
   \<and> shouldTrack (final (reactiveEffect (exec 2) 0 s_throw)) = shouldTrack s_throw
   \<and> trackStack (final (reactiveEffect (exec 2) 0 s_throw)) = trackStack s_throw"
    by (simp add: top_of_def)
  from effect_stacks_released [of 0 s_throw 2 "[Invoke 0]" Thrown "final (exec 2 [Invoke 0] s_throw)"]
    outcome_final [OF x] h(4)
  have 2: "effectStack (final (exec 2 [Invoke 0] s_throw)) = effectStack s_throw
   \<and> activeEffect (final (exec 2 [Invoke 0] s_throw)) = top_of (effectStack (final (exec 2 [Invoke 0] s_throw)))"
    by blast
  from h r x b A(1) 1 2 show ?thesis by (simp add: s1_def)
qed

text \<open>
  Claim C9 as it is stated fails for a function that leaves the tracking-state stack
  unbalanced: after the invocation \<open>shouldTrack\<close> is not the value it had before.
\<close>

theorem unbalanced_tracking_not_restored:
  "active (effects s_push ! 0) \<and> effectStack s_push = []
   \<and> shouldTrack s_push = True \<and> trackStack s_push = []
   \<and> outcome (reactiveEffect (exec 2) 0 s_push) = Some (Returned VUndef)
   \<and> shouldTrack (final (reactiveEffect (exec 2) 0 s_push)) = False
   \<and> trackStack (final (reactiveEffect (exec 2) 0 s_push)) = [True, True]"
  by code_simp

section \<open>Proofs: no re-entry\<close>

lemma norun_rel_refl: "norun_rel e s s"
  by (simp add: norun_rel_def)

lemma norun_rel_trans:
  assumes ab: "norun_rel e a b" and bc: "norun_rel e b c"
  shows "norun_rel e a c"
proof -
  from ab obtain tr1 where 1: "effectStack b = effectStack a" "length (effects a) \<le> length (effects b)"
    "\<forall>x < length (effects a). \<not> active (effects a ! x) \<longrightarrow> \<not> active (effects b ! x)"
    "trace b = trace a @ tr1"
    "e \<in> set (effectStack a) \<and> e < length (effects a) \<and> active (effects b ! e) \<longrightarrow> EvRun e \<notin> set tr1"
    unfolding norun_rel_def by blast
  from bc obtain tr2 where 2: "effectStack c = effectStack b" "length (effects b) \<le> length (effects c)"
    "\<forall>x < length (effects b). \<not> active (effects b ! x) \<longrightarrow> \<not> active (effects c ! x)"
    "trace c = trace b @ tr2"
    "e \<in> set (effectStack b) \<and> e < length (effects b) \<and> active (effects c ! e) \<longrightarrow> EvRun e \<notin> set tr2"
    unfolding norun_rel_def by blast
  have mono: "\<forall>x < length (effects a). \<not> active (effects a ! x) \<longrightarrow> \<not> active (effects c ! x)"
    using 1(2,3) 2(3) by (meson less_le_trans)
  have tr: "trace c = trace a @ (tr1 @ tr2)" using 1(4) 2(4) by simp
  have "EvRun e \<notin> set (tr1 @ tr2)"
    if h: "e \<in> set (effectStack a) \<and> e < length (effects a) \<and> active (effects c ! e)"
  proof -
    from h 1(2) have eb: "e < length (effects b)" by simp
    with h 2(3) have "active (effects b ! e)" by blast
    with h 1(5) have n1: "EvRun e \<notin> set tr1" by blast
    from h eb 1(1) 2(5) have "EvRun e \<notin> set tr2" by simp
    with n1 show ?thesis by simp
  qed
  with 1(1,2) 2(1,2) mono tr show ?thesis
    unfolding norun_rel_def by (intro conjI; (simp; fail | blast))
qed

lemma norun_rel_step:
  assumes "effectStack s' = effectStack s" and "length (effects s') = length (effects s)"
    and "\<And>x. x < length (effects s) \<Longrightarrow> active (effects s' ! x) \<Longrightarrow> active (effects s ! x)"
    and "trace s' = trace s @ tr"
    and "e \<in> set (effectStack s) \<Longrightarrow> e < length (effects s) \<Longrightarrow> active (effects s' ! e)
       \<Longrightarrow> EvRun e \<notin> set tr"
  shows "norun_rel e s s'"
  unfolding norun_rel_def using assms by auto

lemma active_track [simp]:
  "active (effects (track t ty k s) ! x) = active (effects s ! x)"
  by (simp add: effects_track nth_list_update_gen split: option.splits)

lemma active_cleanup [simp]:
  "active (effects (cleanup e s) ! x) = active (effects s ! x)"
  by (simp add: effects_cleanup nth_list_update_gen)

lemma trace_track_cases:
  "trace (track t ty k s) = trace s @ (case activeEffect s of
      None \<Rightarrow> [] | Some a \<Rightarrow> if shouldTrack s then [EvTrack a t k] else [])"
  by (auto simp: track_def Let_def effect_update_def split: option.splits)

lemma closed_norun_rel: "closed (norun_rel e)"
proof -
  have trans: "\<forall>a b c. norun_rel e a b \<longrightarrow> norun_rel e b c \<longrightarrow> norun_rel e a c"
    using norun_rel_trans by blast
  have track: "norun_rel e s (track t ty k s)" for t ty k s
    by (rule norun_rel_step [OF _ _ _ trace_track_cases]) (auto split: option.splits)
  have tracking: "norun_rel e s (pauseTracking s)" "norun_rel e s (enableTracking s)"
    "norun_rel e s (resetTracking s)" for s
    by (rule norun_rel_step [where tr = "[]"]; simp)+
  have evrun: "norun_rel e s (s\<lparr> trace := trace s @ [EvRun x] \<rparr>)"
    if "x < length (effects s)" "\<not> active (effects s ! x)" for x s
    by (rule norun_rel_step [where tr = "[EvRun x]"]) (use that in auto)
  have evsched: "norun_rel e s (s\<lparr> trace := trace s @ [EvSched x] \<rparr>)" for x s
    by (rule norun_rel_step [where tr = "[EvSched x]"]) auto
  have cleanup: "norun_rel e s (cleanup x s)" for x s
    by (rule norun_rel_step [where tr = "[]"]) simp_all
  have bracket: "norun_rel e s (leave s1)"
    if x: "x < length (effects s)" "x \<notin> set (effectStack s)"
      and r: "norun_rel e (enter x s) s1" for x s s1
  proof -
    from r obtain tr where 1: "effectStack s1 = x # effectStack s"
      "length (effects s) \<le> length (effects s1)"
      "\<forall>y < length (effects s). \<not> active (effects s ! y) \<longrightarrow> \<not> active (effects s1 ! y)"
      "trace s1 = trace s @ EvRun x # tr"
      "e \<in> set (x # effectStack s) \<and> e < length (effects s) \<and> active (effects s1 ! e)
         \<longrightarrow> EvRun e \<notin> set tr"
      unfolding norun_rel_def by (auto simp: enter_simps)
    have "EvRun e \<notin> set (EvRun x # tr)"
      if "e \<in> set (effectStack s) \<and> e < length (effects s) \<and> active (effects s1 ! e)"
      using that x(2) 1(5) by auto
    with 1 show ?thesis
      unfolding norun_rel_def
      by (intro conjI exI [of _ "EvRun x # tr"]) (simp_all add: leave_simps)
  qed
  have deact: "norun_rel e s (effect_update x (\<lambda>r. r\<lparr> active := False \<rparr>) s')"
    if "norun_rel e s s'" for x s s'
  proof -
    have "norun_rel e s' (effect_update x (\<lambda>r. r\<lparr> active := False \<rparr>) s')"
      by (rule norun_rel_step [where tr = "[]"])
         (auto simp: effect_update_def nth_list_update_gen split: if_splits)
    with that show ?thesis by (rule norun_rel_trans)
  qed
  have create: "norun_rel e s (createReactiveEffect fn lz sch os ar s)" for fn lz sch os ar s
    unfolding norun_rel_def by (intro conjI exI [of _ "[]"]) (auto simp: nth_append)
  have comp: "norun_rel e s (computed_update c f s')" if "norun_rel e s s'" for c f s s'
  proof -
    have "norun_rel e s' (computed_update c f s')"
      by (rule norun_rel_step [where tr = "[]"]) simp_all
    with that show ?thesis by (rule norun_rel_trans)
  qed
  show ?thesis
    unfolding closed_def
    by (simp add: norun_rel_refl trans track tracking evrun evsched cleanup bracket deact create
        comp [OF norun_rel_refl] comp)
qed

lemma exec_norun: "exec n fn s = Some (c, s') \<Longrightarrow> norun_rel e s s'"
  using preserves_exec [OF closed_norun_rel] by (rule preservesD)

lemma trigger_norun: "trigger (exec n) t ty k nv s = Some (c, s') \<Longrightarrow> norun_rel e s s'"
  by (rule trigger_rel [OF closed_norun_rel preserves_exec [OF closed_norun_rel]])

lemma norun_relD:
  "norun_rel e s s' \<Longrightarrow> e \<in> set (effectStack s) \<Longrightarrow> e < length (effects s) \<Longrightarrow>
     active (effects s' ! e) \<Longrightarrow> EvRun e \<notin> set (drop (length (trace s)) (trace s'))"
  unfolding norun_rel_def by auto

section \<open>Proofs: the effects collected by trigger\<close>

lemma set_add:
  "set (add s acc dep) =
     set acc \<union> {e \<in> set dep. Some e \<noteq> activeEffect s \<or> allowRecurse (effects s ! e)}"
  unfolding add_def by (induction dep arbitrary: acc) auto

lemma distinct_add: "distinct acc \<Longrightarrow> distinct (add s acc dep)"
  unfolding add_def by (induction dep arbitrary: acc) auto

lemma set_add_key:
  "set (add_key s m k acc) =
     set acc \<union> {e \<in> set (dep_get m k). Some e \<noteq> activeEffect s \<or> allowRecurse (effects s ! e)}"
  by (simp add: add_key_def set_add)

lemma distinct_add_key: "distinct acc \<Longrightarrow> distinct (add_key s m k acc)"
  by (simp add: add_key_def distinct_add)

lemma distinct_fold_add:
  "distinct acc \<Longrightarrow> distinct (fold (\<lambda>(_, dep) acc. add s acc dep) m acc)"
  by (induction m arbitrary: acc) (auto simp: distinct_add)

lemma set_fold_add:
  "set (fold (\<lambda>(_, dep) acc. add s acc dep) m acc) =
     set acc \<union> {e. \<exists>(k, dep) \<in> set m. e \<in> set dep \<and>
        (Some e \<noteq> activeEffect s \<or> allowRecurse (effects s ! e))}"
  by (induction m arbitrary: acc) (auto simp: set_add)

lemma distinct_add_length:
  "distinct acc \<Longrightarrow> add_length s nv m acc = Inr effs \<Longrightarrow> distinct effs"
proof (induction m arbitrary: acc)
  case Nil
  then show ?case by simp
next
  case (Cons a m)
  obtain k dep where a: "a = (k, dep)" by (cases a)
  from Cons.prems have "\<exists>acc'. distinct acc' \<and> add_length s nv m acc' = Inr effs"
    by (auto simp: a split: if_splits sum.splits intro: distinct_add)
  then show ?case using Cons.IH by blast
qed

lemma set_add_length:
  "add_length s nv m acc = Inr effs \<Longrightarrow>
     set effs = set acc \<union> {e. \<exists>(k, dep) \<in> set m. e \<in> set dep \<and>
        (k = KStr ''length'' \<or> key_ge k nv = Inr True) \<and>
        (Some e \<noteq> activeEffect s \<or> allowRecurse (effects s ! e))}"
proof (induction m arbitrary: acc)
  case Nil
  then show ?case by simp
next
  case (Cons a m)
  obtain k dep where a: "a = (k, dep)" by (cases a)
  show ?case
  proof (cases "k = KStr ''length''")
    case True
    with Cons.prems a have "add_length s nv m (add s acc dep) = Inr effs" by simp
    from Cons.IH [OF this] show ?thesis using True a by (auto simp: set_add)
  next
    case False
    with Cons.prems a obtain b where b: "key_ge k nv = Inr b"
      and rest: "add_length s nv m (if b then add s acc dep else acc) = Inr effs"
      by (auto split: sum.splits)
    from Cons.IH [OF rest] show ?thesis using False a b by (auto simp: set_add)
  qed
qed

lemma trigger_effects_distinct:
  "trigger_effects s t ty k nv m = Inr effs \<Longrightarrow> distinct effs"
  unfolding trigger_effects_def
  by (auto simp: distinct_fold_add distinct_add_key Let_def
      dest: distinct_add_length [rotated]
      split: if_splits option.splits TriggerOpTypes.splits)

lemma trigger_effects_excludes_active:
  "trigger_effects s t ty k nv m = Inr effs \<Longrightarrow> activeEffect s = Some e \<Longrightarrow>
     \<not> allowRecurse (effects s ! e) \<Longrightarrow> e \<notin> set effs"
  unfolding trigger_effects_def
  by (auto simp: set_fold_add set_add_key Let_def dest!: set_add_length
      split: if_splits option.splits TriggerOpTypes.splits)

text \<open>
  Claim C10. The effects that \<open>trigger\<close> runs are collected first, into a \<open>Set\<close>: the
  list of them has no repetition, and \<open>trigger\<close> is the loop over this list, which hands
  each of them once to \<open>run\<close>.
\<close>

theorem trigger_runs_each_once:
  assumes "targetMap s t = Some m" and "trigger_effects s t ty k nv m = Inr effs"
  shows "distinct effs \<and> trigger (exec n) t ty k nv s = forEach_run (exec n) effs s"
  using assms by (simp add: trigger_def trigger_effects_distinct)

theorem trigger_runs_each_once_witness:
  "targetMap s_iter o1 = Some [(kx, [0]), (ITERATE_KEY, [0])]
   \<and> trigger_effects s_iter o1 ADD (Some kx) VUndef [(kx, [0]), (ITERATE_KEY, [0])] = Inr [0]
   \<and> distinct [0 :: nat]
   \<and> trigger (exec 2) o1 ADD (Some kx) VUndef s_iter = forEach_run (exec 2) [0] s_iter
   \<and> trace (final (trigger (exec 2) o1 ADD (Some kx) VUndef s_iter))
       = trace s_iter @ [EvRun 0, EvTrack 0 o1 kx, EvTrack 0 o1 ITERATE_KEY]
   \<and> targetMap s_iter_arr (Target ArrayObject 2) = Some [(KStr ''1'', [0]), (KStr ''length'', [0])]
   \<and> trigger_effects s_iter_arr (Target ArrayObject 2) ADD (Some (KStr ''1'')) VUndef
         [(KStr ''1'', [0]), (KStr ''length'', [0])] = Inr [0]
   \<and> trigger (exec 2) (Target ArrayObject 2) ADD (Some (KStr ''1'')) VUndef s_iter_arr
       = forEach_run (exec 2) [0] s_iter_arr"
proof -
  have a': "targetMap s_iter_arr (Target ArrayObject 2) = Some [(KStr ''1'', [0]), (KStr ''length'', [0])]"
    by code_simp
  have b': "trigger_effects s_iter_arr (Target ArrayObject 2) ADD (Some (KStr ''1'')) VUndef
         [(KStr ''1'', [0]), (KStr ''length'', [0])] = Inr [0]"
    by code_simp
  have a: "targetMap s_iter o1 = Some [(kx, [0]), (ITERATE_KEY, [0])]" by code_simp
  have b: "trigger_effects s_iter o1 ADD (Some kx) VUndef [(kx, [0]), (ITERATE_KEY, [0])] = Inr [0]"
    by code_simp
  have c: "trace (final (trigger (exec 2) o1 ADD (Some kx) VUndef s_iter))
       = trace s_iter @ [EvRun 0, EvTrack 0 o1 kx, EvTrack 0 o1 ITERATE_KEY]" by code_simp
  from trigger_runs_each_once [OF a b, of 2] trigger_runs_each_once [OF a' b', of 2] a b c a' b'
  show ?thesis by simp
qed

lemma set_trigger_effects:
  assumes "trigger_effects s t ty k nv m = Inr effs"
  shows "set effs = {x. (\<exists>dep \<in> set (selected_deps t ty k nv m). x \<in> set dep) \<and>
            (Some x \<noteq> activeEffect s \<or> allowRecurse (effects s ! x))}"
proof (cases "ty = CLEAR")
  case True
  with assms show ?thesis
    by (force simp: trigger_effects_def selected_deps_def set_fold_add)
next
  case nc: False
  show ?thesis
  proof (cases "k = Some (KStr ''length'') \<and> isArray t")
    case True
    with assms nc have "add_length s nv m [] = Inr effs" by (simp add: trigger_effects_def)
    from set_add_length [OF this] True nc show ?thesis
      by (force simp: selected_deps_def)
  next
    case False
    with assms nc show ?thesis
      unfolding trigger_effects_def selected_deps_def
      by (cases ty; cases k; cases "isMap t"; cases "isArray t";
          cases "case k of None \<Rightarrow> False | Some k' \<Rightarrow> isIntegerKey k'")
         (auto simp: set_add_key Let_def)
  qed
qed

lemma length_not_integer: "\<not> isIntegerKey (KStr ''length'')"
  by code_simp

text \<open>
  The routes of the selection: every \<open>Dep\<close> of the target for \<open>CLEAR\<close>; the \<open>Dep\<close> at
  \<open>length\<close> and at the keys not below the new value for the \<open>length\<close> of an array; the
  \<open>Dep\<close> at the written key; the \<open>Dep\<close>s at \<open>ITERATE_KEY\<close>, at \<open>MAP_KEY_ITERATE_KEY\<close>
  and at \<open>length\<close> for the operations that change what an iteration sees.
\<close>

lemma selected_deps_routes:
  "ty = CLEAR \<Longrightarrow> (k', dep) \<in> set m \<Longrightarrow> dep \<in> set (selected_deps t ty k nv m)"
  "ty \<noteq> CLEAR \<Longrightarrow> isArray t \<Longrightarrow> (k', dep) \<in> set m \<Longrightarrow>
     k' = KStr ''length'' \<or> key_ge k' nv = Inr True \<Longrightarrow>
     dep \<in> set (selected_deps t ty (Some (KStr ''length'')) nv m)"
  "ty \<noteq> CLEAR \<Longrightarrow> \<not> (k' = KStr ''length'' \<and> isArray t) \<Longrightarrow>
     dep_get m k' \<in> set (selected_deps t ty (Some k') nv m)"
  "ty = ADD \<or> ty = DELETE \<Longrightarrow> \<not> isArray t \<Longrightarrow>
     dep_get m ITERATE_KEY \<in> set (selected_deps t ty k nv m)"
  "ty = ADD \<or> ty = DELETE \<Longrightarrow> isMap t \<Longrightarrow>
     dep_get m MAP_KEY_ITERATE_KEY \<in> set (selected_deps t ty k nv m)"
  "isArray t \<Longrightarrow> isIntegerKey k' \<Longrightarrow>
     dep_get m (KStr ''length'') \<in> set (selected_deps t ADD (Some k') nv m)"
  "isMap t \<Longrightarrow> dep_get m ITERATE_KEY \<in> set (selected_deps t SET k nv m)"
  using length_not_integer
  by (force simp: selected_deps_def isArray_def isMap_def)+

text \<open>
  Claim C3. While \<open>E\<close> is the active effect and does not allow recursion, the effects
  that a \<open>trigger\<close> collects, which are the ones it runs or hands to their scheduler, do
  not contain \<open>E\<close>; an effect that allows recursion is collected as soon as one of the
  \<open>Dep\<close>s that the trigger selects contains it, by whatever route the \<open>Dep\<close> is
  selected, and every other effect of a selected \<open>Dep\<close> is collected in both cases.
  Whatever the trigger runs, the function of \<open>E\<close> is not started again while \<open>E\<close> is on
  the effect stack and has not been stopped.
\<close>

theorem active_effect_not_collected:
  assumes "activeEffect s = Some e" and "targetMap s t = Some m"
    and "trigger_effects s t ty k nv m = Inr effs"
  shows "(\<not> allowRecurse (effects s ! e) \<longrightarrow> e \<notin> set effs)
    \<and> (allowRecurse (effects s ! e) \<and> (\<exists>dep \<in> set (selected_deps t ty k nv m). e \<in> set dep)
         \<longrightarrow> e \<in> set effs)
    \<and> (\<forall>x. x \<noteq> e \<longrightarrow>
          (x \<in> set effs \<longleftrightarrow> (\<exists>dep \<in> set (selected_deps t ty k nv m). x \<in> set dep)))
    \<and> trigger (exec n) t ty k nv s = forEach_run (exec n) effs s
    \<and> (e \<in> set (effectStack s) \<and> e < length (effects s)
         \<and> trigger (exec n) t ty k nv s = Some (c, s') \<and> active (effects s' ! e) \<longrightarrow>
         EvRun e \<notin> set (drop (length (trace s)) (trace s')))"
proof (intro conjI impI allI)
  assume "e \<in> set (effectStack s) \<and> e < length (effects s)
         \<and> trigger (exec n) t ty k nv s = Some (c, s') \<and> active (effects s' ! e)"
  then show "EvRun e \<notin> set (drop (length (trace s)) (trace s'))"
    using norun_relD [OF trigger_norun] by blast
next
  assume "\<not> allowRecurse (effects s ! e)"
  with assms show "e \<notin> set effs" by (simp add: trigger_effects_excludes_active)
next
  assume "allowRecurse (effects s ! e) \<and> (\<exists>dep \<in> set (selected_deps t ty k nv m). e \<in> set dep)"
  then show "e \<in> set effs" unfolding set_trigger_effects [OF assms(3)] by simp
next
  fix x assume "x \<noteq> e"
  then show "x \<in> set effs \<longleftrightarrow> (\<exists>dep \<in> set (selected_deps t ty k nv m). x \<in> set dep)"
    unfolding set_trigger_effects [OF assms(3)] using assms(1) by auto
next
  from assms show "trigger (exec n) t ty k nv s = forEach_run (exec n) effs s"
    by (simp add: trigger_def)
qed

theorem active_effect_not_collected_witness:
  "activeEffect s_mid = Some 0 \<and> targetMap s_mid o1 = Some [(kx, [0])]
   \<and> \<not> allowRecurse (effects s_mid ! 0)
   \<and> trigger_effects s_mid o1 SET (Some kx) VUndef [(kx, [0])] = Inr []
   \<and> 0 \<notin> set ([] :: nat list)
   \<and> trigger (exec 2) o1 SET (Some kx) VUndef s_mid = forEach_run (exec 2) [] s_mid
   \<and> activeEffect s_mid_rec = Some 0 \<and> targetMap s_mid_rec o1 = Some [(kx, [0])]
   \<and> allowRecurse (effects s_mid_rec ! 0)
   \<and> selected_deps o1 SET (Some kx) VUndef [(kx, [0])] = [[0]]
   \<and> trigger_effects s_mid_rec o1 SET (Some kx) VUndef [(kx, [0])] = Inr [0]
   \<and> selected_deps o1 CLEAR None VUndef [(kx, [0])] = [[0]]
   \<and> trigger_effects s_mid_rec o1 CLEAR None VUndef [(kx, [0])] = Inr [0]
   \<and> activeEffect s_rec_iter = Some 0 \<and> targetMap s_rec_iter o1 = Some [(ITERATE_KEY, [0])]
   \<and> allowRecurse (effects s_rec_iter ! 0)
   \<and> selected_deps o1 ADD (Some ky) VUndef [(ITERATE_KEY, [0])] = [[], [0]]
   \<and> trigger_effects s_rec_iter o1 ADD (Some ky) VUndef [(ITERATE_KEY, [0])] = Inr [0]
   \<and> activeEffect s_rec_arr = Some 0 \<and> targetMap s_rec_arr arr = Some [(KStr ''3'', [0])]
   \<and> allowRecurse (effects s_rec_arr ! 0)
   \<and> selected_deps arr SET (Some (KStr ''length'')) (VNum (Fin 1)) [(KStr ''3'', [0])] = [[0]]
   \<and> trigger_effects s_rec_arr arr SET (Some (KStr ''length'')) (VNum (Fin 1)) [(KStr ''3'', [0])]
       = Inr [0]
   \<and> 0 \<in> set [0 :: nat]
   \<and> trace (final (reactiveEffect (exec 3) 0 s_self)) = [EvRun 0, EvTrack 0 o1 kx]
   \<and> activeEffect s_mid2 = Some 0 \<and> 0 \<in> set (effectStack s_mid2) \<and> 0 < length (effects s_mid2)
   \<and> selected_deps o1 SET (Some kx) VUndef [(kx, [1, 0])] = [[1, 0]]
   \<and> trigger_effects s_mid2 o1 SET (Some kx) VUndef [(kx, [1, 0])] = Inr [1]
   \<and> (1 :: nat) \<noteq> 0 \<and> 1 \<in> set [1 :: nat]
   \<and> outcome (trigger (exec 3) o1 SET (Some kx) VUndef s_mid2) = Some Next
   \<and> active (effects (final (trigger (exec 3) o1 SET (Some kx) VUndef s_mid2)) ! 0)
   \<and> drop (length (trace s_mid2)) (trace (final (trigger (exec 3) o1 SET (Some kx) VUndef s_mid2)))
       = [EvRun 1, EvTrack 1 o1 kx]
   \<and> EvRun 0 \<notin> set (drop (length (trace s_mid2))
         (trace (final (trigger (exec 3) o1 SET (Some kx) VUndef s_mid2))))"
proof -
  have d: "activeEffect s_mid2 = Some 0" "targetMap s_mid2 o1 = Some [(kx, [1, 0])]"
    "trigger_effects s_mid2 o1 SET (Some kx) VUndef [(kx, [1, 0])] = Inr [1]"
    "0 \<in> set (effectStack s_mid2)" "0 < length (effects s_mid2)"
    "active (effects (final (trigger (exec 3) o1 SET (Some kx) VUndef s_mid2)) ! 0)"
    "drop (length (trace s_mid2)) (trace (final (trigger (exec 3) o1 SET (Some kx) VUndef s_mid2)))
       = [EvRun 1, EvTrack 1 o1 kx]"
    "selected_deps o1 SET (Some kx) VUndef [(kx, [1, 0])] = [[1, 0]]"
    by code_simp+
  have t: "outcome (trigger (exec 3) o1 SET (Some kx) VUndef s_mid2) = Some Next" by code_simp
  note i2 = active_effect_not_collected [OF d(1,2,3), where n = 3 and c = Next
      and s' = "final (trigger (exec 3) o1 SET (Some kx) VUndef s_mid2)"]
  from i2 d(4,5,6) outcome_final [OF t]
  have 3: "EvRun 0 \<notin> set (drop (length (trace s_mid2))
         (trace (final (trigger (exec 3) o1 SET (Some kx) VUndef s_mid2))))" by blast
  from i2 have "(1 :: nat) \<noteq> 0 \<longrightarrow>
      (1 \<in> set [1 :: nat] \<longleftrightarrow> (\<exists>dep \<in> set (selected_deps o1 SET (Some kx) VUndef [(kx, [1, 0])]). 1 \<in> set dep))"
    by blast
  then have 4: "1 \<in> set [1 :: nat]" by (simp add: d(8))
  have a: "activeEffect s_mid = Some 0" "targetMap s_mid o1 = Some [(kx, [0])]"
    "\<not> allowRecurse (effects s_mid ! 0)"
    "trigger_effects s_mid o1 SET (Some kx) VUndef [(kx, [0])] = Inr []"
    by code_simp+
  have b: "activeEffect s_mid_rec = Some 0" "targetMap s_mid_rec o1 = Some [(kx, [0])]"
    "allowRecurse (effects s_mid_rec ! 0)"
    "trigger_effects s_mid_rec o1 SET (Some kx) VUndef [(kx, [0])] = Inr [0]"
    "selected_deps o1 SET (Some kx) VUndef [(kx, [0])] = [[0]]"
    "trigger_effects s_mid_rec o1 CLEAR None VUndef [(kx, [0])] = Inr [0]"
    "selected_deps o1 CLEAR None VUndef [(kx, [0])] = [[0]]"
    by code_simp+
  have it: "activeEffect s_rec_iter = Some 0" "targetMap s_rec_iter o1 = Some [(ITERATE_KEY, [0])]"
    "allowRecurse (effects s_rec_iter ! 0)"
    "trigger_effects s_rec_iter o1 ADD (Some ky) VUndef [(ITERATE_KEY, [0])] = Inr [0]"
    "selected_deps o1 ADD (Some ky) VUndef [(ITERATE_KEY, [0])] = [[], [0]]"
    by code_simp+
  have ar: "activeEffect s_rec_arr = Some 0" "targetMap s_rec_arr arr = Some [(KStr ''3'', [0])]"
    "allowRecurse (effects s_rec_arr ! 0)"
    "trigger_effects s_rec_arr arr SET (Some (KStr ''length'')) (VNum (Fin 1)) [(KStr ''3'', [0])]
       = Inr [0]"
    "selected_deps arr SET (Some (KStr ''length'')) (VNum (Fin 1)) [(KStr ''3'', [0])] = [[0]]"
    by code_simp+
  have c: "trace (final (reactiveEffect (exec 3) 0 s_self)) = [EvRun 0, EvTrack 0 o1 kx]"
    by code_simp
  from active_effect_not_collected [OF a(1,2,4), where n = 2]
  have 1: "trigger (exec 2) o1 SET (Some kx) VUndef s_mid = forEach_run (exec 2) [] s_mid"
    by blast
  from active_effect_not_collected [OF b(1,2,4), where n = 2] b(3)
  have 2: "0 \<in> set [0 :: nat]" by (simp add: b(5))
  from active_effect_not_collected [OF b(1,2,6), where n = 2] b(3)
  have 5: "0 \<in> set [0 :: nat]" by (simp add: b(7))
  from active_effect_not_collected [OF it(1,2,4), where n = 2] it(3)
  have 6: "0 \<in> set [0 :: nat]" by (simp add: it(5))
  from active_effect_not_collected [OF ar(1,2,4), where n = 2] ar(3)
  have 7: "0 \<in> set [0 :: nat]" by (simp add: ar(5))
  from a b it ar c 1 2 d t 3 4 show ?thesis by simp
qed

text \<open>
  Claim C4. An invocation of an active effect that is not on the effect stack is the run
  of its function from the state \<open>enter e s\<close>, followed by \<open>leave\<close>. In \<open>enter e s\<close> the
  effect has been removed from every \<open>Dep\<close> of its \<open>deps\<close> (from every \<open>Dep\<close>, by the
  invariant) and its \<open>deps\<close> are empty. When the function has ended, the \<open>deps\<close> of the
  effect are among the pairs tracked for it during the run, so a pair that was not
  tracked in the run has a \<open>Dep\<close> without the effect, and a \<open>SET\<close> of that key does not
  collect it.
\<close>

theorem run_resubscribes_from_scratch:
  assumes valid: "e < length (effects s)" and act: "active (effects s ! e)"
    and fresh: "e \<notin> set (effectStack s)"
  shows "reactiveEffect (exec n) e s =
       (case call (exec n) (raw (effects s ! e)) (enter e s) of
          None \<Rightarrow> None
        | Some (c, s1) \<Rightarrow> Some (c, leave s1))
    \<and> deps (effects (enter e s) ! e) = []
    \<and> (\<forall>d \<in> set (deps (effects s ! e)). e \<notin> set (dep_of (enter e s) (fst d) (snd d)))
    \<and> (wf s \<longrightarrow> (\<forall>t k. e \<notin> set (dep_of (enter e s) t k)))
    \<and> (\<forall>c s1. call (exec n) (raw (effects s ! e)) (enter e s) = Some (c, s1) \<longrightarrow>
          reactiveEffect (exec n) e s = Some (c, leave s1)
        \<and> (\<forall>t k. (t, k) \<in> set (deps (effects (leave s1) ! e)) \<longrightarrow>
              EvTrack e t k \<in> set (drop (length (trace s)) (trace (leave s1))))
        \<and> (wf s \<longrightarrow> (\<forall>t k. EvTrack e t k \<notin> set (drop (length (trace s)) (trace (leave s1))) \<longrightarrow>
              e \<notin> set (dep_of (leave s1) t k) \<and>
              (\<not> isMap t \<and> \<not> (k = KStr ''length'' \<and> isArray t) \<longrightarrow>
                 (\<forall>nv effs. trigger_effects (leave s1) t SET (Some k) nv (depsMap_of (leave s1) t) = Inr effs
                    \<longrightarrow> e \<notin> set effs)))))"
proof -
  have eq: "reactiveEffect (exec n) e s =
       (case call (exec n) (raw (effects s ! e)) (enter e s) of
          None \<Rightarrow> None
        | Some (c, s1) \<Rightarrow> Some (c, leave s1))"
    by (rule reactiveEffect_body [OF valid act fresh])
  have c1: "deps (effects (enter e s) ! e) = []"
    using valid by (simp add: enter_simps effects_cleanup)
  have c2: "\<forall>d \<in> set (deps (effects s ! e)). e \<notin> set (dep_of (enter e s) (fst d) (snd d))"
    by (simp add: enter_simps dep_of_cleanup)
  have c3: "wf s \<longrightarrow> (\<forall>t k. e \<notin> set (dep_of (enter e s) t k))"
    by (simp add: enter_simps cleanup_unsubscribed wf_def)
  have post: "reactiveEffect (exec n) e s = Some (c, leave s1)
        \<and> (\<forall>t k. (t, k) \<in> set (deps (effects (leave s1) ! e)) \<longrightarrow>
              EvTrack e t k \<in> set (drop (length (trace s)) (trace (leave s1))))
        \<and> (wf s \<longrightarrow> (\<forall>t k. EvTrack e t k \<notin> set (drop (length (trace s)) (trace (leave s1))) \<longrightarrow>
              e \<notin> set (dep_of (leave s1) t k) \<and>
              (\<not> isMap t \<and> \<not> (k = KStr ''length'' \<and> isArray t) \<longrightarrow>
                 (\<forall>nv effs. trigger_effects (leave s1) t SET (Some k) nv (depsMap_of (leave s1) t) = Inr effs
                    \<longrightarrow> e \<notin> set effs))))"
    if body: "call (exec n) (raw (effects s ! e)) (enter e s) = Some (c, s1)" for c s1
  proof -
    define s' where "s' = leave s1"
    have run: "reactiveEffect (exec n) e s = Some (c, s')"
      using eq body by (simp add: s'_def)
    have len: "e < length (effects s1)"
      using call_rel [OF preserves_exec [OF closed_wf_rel] body] valid
      by (simp add: wf_rel_def enter_simps)
    have wf': "wf s \<Longrightarrow> wf s'"
      using reactiveEffect_rel [OF closed_wf_rel preserves_exec [OF closed_wf_rel] run]
      by (simp add: wf_rel_def)
    have tr: "trk_rel (enter e s) s1"
      using call_rel [OF preserves_exec [OF closed_trk_rel] body] .
    then obtain d where d: "trace s1 = trace s @ EvRun e # d"
      unfolding trk_rel_def by (auto simp: enter_simps)
    have tracked: "EvTrack e t k \<in> set (drop (length (trace s)) (trace s'))"
      if "(t, k) \<in> set (deps (effects s' ! e))" for t k
    proof -
      from that len have "(t, k) \<in> set (deps_of s1 e)" by (simp add: deps_of_def s'_def leave_simps)
      from trk_relD [OF tr this] have "EvTrack e t k \<in> set (drop (length (trace (enter e s))) (trace s1))"
        by (simp add: deps_of_enter)
      then show ?thesis using d by (simp add: s'_def leave_simps enter_simps)
    qed
    have c5: "e \<notin> set (dep_of s' t k) \<and>
            (\<not> isMap t \<and> \<not> (k = KStr ''length'' \<and> isArray t) \<longrightarrow>
               (\<forall>nv effs. trigger_effects s' t SET (Some k) nv (depsMap_of s' t) = Inr effs
                  \<longrightarrow> e \<notin> set effs))"
      if w: "wf s" and nt: "EvTrack e t k \<notin> set (drop (length (trace s)) (trace s'))" for t k
    proof -
      from nt tracked have "(t, k) \<notin> set (deps (effects s' ! e))" by blast
      with wf_dep_iff [OF wf' [OF w], of e t k] len
      have nd: "e \<notin> set (dep_of s' t k)" by (simp add: s'_def leave_simps)
      then show ?thesis
        by (auto simp: trigger_effects_def set_add_key dep_of_def Let_def)
    qed
    from run tracked c5 show ?thesis unfolding s'_def by blast
  qed
  from eq c1 c2 c3 post show ?thesis by blast
qed

lemma wf_s_stale: "wf s_stale"
  unfolding s_stale_def
  by (intro wf_leave wf_track wf_enter wf_create wf_init) simp

theorem run_resubscribes_from_scratch_witness:
  "0 < length (effects s_stale) \<and> active (effects s_stale ! 0) \<and> 0 \<notin> set (effectStack s_stale)
   \<and> wf s_stale
   \<and> deps (effects s_stale ! 0) = [(o1, ky)] \<and> dep_of s_stale o1 ky = [0]
   \<and> outcome (call (exec 2) (raw (effects s_stale ! 0)) (enter 0 s_stale)) = Some (Returned VUndef)
   \<and> reactiveEffect (exec 2) 0 s_stale
       = Some (Returned VUndef, leave (final (call (exec 2) (raw (effects s_stale ! 0)) (enter 0 s_stale))))
   \<and> dep_of (enter 0 s_stale) o1 ky = []
   \<and> deps (effects (final (reactiveEffect (exec 2) 0 s_stale)) ! 0) = [(o1, kx)]
   \<and> drop (length (trace s_stale)) (trace (final (reactiveEffect (exec 2) 0 s_stale)))
        = [EvRun 0, EvTrack 0 o1 kx]
   \<and> 0 \<notin> set (dep_of (final (reactiveEffect (exec 2) 0 s_stale)) o1 ky)
   \<and> \<not> isMap o1 \<and> \<not> (ky = KStr ''length'' \<and> isArray o1)
   \<and> trigger_effects (final (reactiveEffect (exec 2) 0 s_stale)) o1 SET (Some ky) VUndef
        (depsMap_of (final (reactiveEffect (exec 2) 0 s_stale)) o1) = Inr []"
proof -
  define s1 where "s1 = final (call (exec 2) (raw (effects s_stale ! 0)) (enter 0 s_stale))"
  have h: "0 < length (effects s_stale)" "active (effects s_stale ! 0)"
    "0 \<notin> set (effectStack s_stale)" by code_simp+
  have r: "outcome (call (exec 2) (raw (effects s_stale ! 0)) (enter 0 s_stale)) = Some (Returned VUndef)"
    by code_simp
  have body: "call (exec 2) (raw (effects s_stale ! 0)) (enter 0 s_stale) = Some (Returned VUndef, s1)"
    unfolding s1_def by (rule outcome_final [OF r])
  have v: "deps (effects s_stale ! 0) = [(o1, ky)]" "dep_of s_stale o1 ky = [0]"
    "dep_of (enter 0 s_stale) o1 ky = []"
    "deps (effects (final (reactiveEffect (exec 2) 0 s_stale)) ! 0) = [(o1, kx)]"
    "drop (length (trace s_stale)) (trace (final (reactiveEffect (exec 2) 0 s_stale)))
        = [EvRun 0, EvTrack 0 o1 kx]"
    "\<not> isMap o1" "\<not> (ky = KStr ''length'' \<and> isArray o1)"
    "trigger_effects (final (reactiveEffect (exec 2) 0 s_stale)) o1 SET (Some ky) VUndef
        (depsMap_of (final (reactiveEffect (exec 2) 0 s_stale)) o1) = Inr []"
    by code_simp+
  note inst = run_resubscribes_from_scratch [OF h, of 2]
  from inst body have run: "reactiveEffect (exec 2) 0 s_stale = Some (Returned VUndef, leave s1)"
    by blast
  then have f: "final (reactiveEffect (exec 2) 0 s_stale) = leave s1" by simp
  have nt: "EvTrack 0 o1 ky \<notin> set (drop (length (trace s_stale)) (trace (leave s1)))"
    using v(5) unfolding f by simp code_simp
  from inst body wf_s_stale nt
  have "0 \<notin> set (dep_of (leave s1) o1 ky)" by blast
  with h r v wf_s_stale run show ?thesis by (simp add: f s1_def)
qed

section \<open>Proofs: the length of an array\<close>




















text \<open>
  The conversion rounds: a key whose decimal value is below \<open>1\<close> by less than half a unit
  in the last place is \<open>1\<close> as a number, and an integer above \<open>2 ^ 53\<close> is the nearest
  multiple of its spacing, the even one of two.
\<close>

lemma length_trigger_rounds_key:
  "StringToNumber ''0.99999999999999999999'' = Fin 1
   \<and> key_ge (KStr ''0.99999999999999999999'') (VNum (Fin 1)) = Inr True
   \<and> StringToNumber ''9007199254740995'' = Fin 9007199254740996
   \<and> key_ge (KStr ''9007199254740995'') (VNum (Fin 9007199254740996)) = Inr True
   \<and> StringToNumber ''0.1'' = Fin (3602879701896397 / 36028797018963968)
   \<and> StringToNumber [CHR 0xA0, CHR ''7'', CHR 0xA0] = Fin 7"
  by code_simp

text \<open>
  A \<open>Dep\<close> stored at a symbol key, such as the one \<open>ownKeys\<close> tracks at \<open>ITERATE_KEY\<close>,
  makes the comparison throw: no effect is run.
\<close>

lemma length_trigger_symbol_key_throws:
  "outcome (trigger (exec 2) arr SET (Some (KStr ''length'')) (VNum (Fin 1))
     (final (exec 3 [Effect [Track arr ITERATE ITERATE_KEY] False None None False] init_state)))
   = Some Thrown"
  by code_simp

section \<open>Proofs: computed cells\<close>

lemma discard_not_Returned [simp]: "discard r \<noteq> Some (Returned v, s')"
  by (auto simp: discard_def split: option.splits completion.splits)

lemma call_scheduler_not_Returned [simp]: "call_scheduler ex sch s \<noteq> Some (Returned v, s')"
  by (auto simp: call_scheduler_def split: sched.splits)

lemma run_not_Returned [simp]: "run ex e s \<noteq> Some (Returned v, s')"
  by (auto simp: run_def split: option.splits)

lemma forEach_run_not_Returned [simp]: "forEach_run ex es s \<noteq> Some (Returned v, s')"
  by (induction es arbitrary: s) (auto split: option.splits completion.splits)

lemma trigger_not_Returned [simp]: "trigger ex t ty k nv s \<noteq> Some (Returned v, s')"
  by (auto simp: trigger_def split: option.splits sum.splits error.splits)

lemma discard_id: "(\<And>v s'. r \<noteq> Some (Returned v, s')) \<Longrightarrow> discard r = r"
  by (auto simp: discard_def split: option.splits completion.splits)

lemma steps_Trigger:
  "steps ex [Trigger t ty k nv] s = trigger ex t ty k nv s"
proof (cases "trigger ex t ty k nv s")
  case None
  then show ?thesis by simp
next
  case (Some r)
  then show ?thesis by (cases r; cases "fst r") auto
qed

lemma computed_scheduler_run:
  assumes "e < length (effects s)" and "scheduler (effects s ! e) = Some (SchedComputed c)"
    and "c < length (computeds s)"
  shows "run (exec (Suc n)) e s =
     (if c_dirty (computeds s ! c) then Some (Next, s\<lparr> trace := trace s @ [EvSched e] \<rparr>)
      else trigger (exec n) (computed_target c) SET (Some (KStr ''value'')) VUndef
             (computed_update c (\<lambda>r. r\<lparr> c_dirty := True \<rparr>) (s\<lparr> trace := trace s @ [EvSched e] \<rparr>)))"
  using assms
  by (simp add: run_def call_scheduler_def steps_Trigger discard_id del: steps.simps)

lemma computed_read_result:
  "computed_read c s =
     Some (Returned (c_value (computeds s ! c)), track (computed_target c) GET (KStr ''value'') s)"
  by (simp add: computed_read_def Let_def)

lemma computed_get_Returned:
  assumes "computed_get ex c s = Some (Returned v, s')"
  shows "\<exists>s0. computed_read c s0 = Some (Returned v, s')"
  using assms
  by (auto simp: computed_get_def split: if_splits option.splits completion.splits)

text \<open>
  Claim C6, as the code has it. Reading \<open>c.value\<close> while \<open>_dirty\<close> is set, when the effect of
  the cell is active and not running, runs the getter: when the getter returns a value,
  the read stores it as \<open>_value\<close>, clears \<open>_dirty\<close>, tracks \<open>(c, GET, "value")\<close> and returns
  it; when the getter throws, so does the read. When the effect of the cell was stopped
  or is running, the getter is not run and \<open>undefined\<close> is stored and returned in the same
  way. Reading \<open>c.value\<close> with \<open>_dirty\<close> clear returns the cached \<open>_value\<close> and does not run
  the getter. Every read that returns has tracked \<open>(c, GET, "value")\<close> and returns the
  \<open>_value\<close> of the cell. When \<open>trigger\<close> runs the effect of the cell, its scheduler does
  nothing if \<open>_dirty\<close> is set, and otherwise sets it and triggers \<open>(c, SET, "value")\<close>.
\<close>

theorem computed_value_cached:
  assumes c: "c < length (computeds s)" and e: "c_effect (computeds s ! c) = e"
  shows "(c_dirty (computeds s ! c) \<and> e < length (effects s) \<and> active (effects s ! e)
        \<and> e \<notin> set (effectStack s) \<longrightarrow>
        (\<forall>v s1. call (exec n) (raw (effects s ! e)) (enter e s) = Some (Returned v, s1) \<longrightarrow>
           (let s2 = track (computed_target c) GET (KStr ''value'')
                       (computed_update c (\<lambda>r. r\<lparr> c_value := v, c_dirty := False \<rparr>) (leave s1))
            in computed_get (exec n) c s = Some (Returned v, s2)
               \<and> c_value (computeds s2 ! c) = v \<and> \<not> c_dirty (computeds s2 ! c)))
        \<and> (\<forall>s1. call (exec n) (raw (effects s ! e)) (enter e s) = Some (Thrown, s1) \<longrightarrow>
             computed_get (exec n) c s = Some (Thrown, leave s1)))
    \<and> (c_dirty (computeds s ! c) \<and> e < length (effects s)
        \<and> (if active (effects s ! e) then e \<in> set (effectStack s)
            else scheduler (effects s ! e) \<noteq> None) \<longrightarrow>
        (let s2 = track (computed_target c) GET (KStr ''value'')
                    (computed_update c (\<lambda>r. r\<lparr> c_value := VUndef, c_dirty := False \<rparr>) s)
         in computed_get (exec n) c s = Some (Returned VUndef, s2)
            \<and> c_value (computeds s2 ! c) = VUndef \<and> \<not> c_dirty (computeds s2 ! c)))
    \<and> (\<not> c_dirty (computeds s ! c) \<longrightarrow>
        computed_get (exec n) c s =
          Some (Returned (c_value (computeds s ! c)), track (computed_target c) GET (KStr ''value'') s))
    \<and> (\<forall>v s'. computed_get (exec n) c s = Some (Returned v, s') \<longrightarrow>
          (\<exists>s0. s' = track (computed_target c) GET (KStr ''value'') s0)
          \<and> c_value (computeds s' ! c) = v)
    \<and> (e < length (effects s) \<and> scheduler (effects s ! e) = Some (SchedComputed c) \<longrightarrow>
        run (exec (Suc n)) e s =
          (if c_dirty (computeds s ! c) then Some (Next, s\<lparr> trace := trace s @ [EvSched e] \<rparr>)
           else trigger (exec n) (computed_target c) SET (Some (KStr ''value'')) VUndef
                  (computed_update c (\<lambda>r. r\<lparr> c_dirty := True \<rparr>)
                     (s\<lparr> trace := trace s @ [EvSched e] \<rparr>))))"
proof (intro conjI impI allI)
  fix v s1
  assume a: "c_dirty (computeds s ! c) \<and> e < length (effects s) \<and> active (effects s ! e)
        \<and> e \<notin> set (effectStack s)"
    and body: "call (exec n) (raw (effects s ! e)) (enter e s) = Some (Returned v, s1)"
  from a body have eff: "reactiveEffect (exec n) e s = Some (Returned v, leave s1)"
    by (simp add: reactiveEffect_body)
  have len: "length (computeds (leave s1)) = length (computeds s)"
    using reactiveEffect_rel [OF closed_wf_rel preserves_exec [OF closed_wf_rel] eff]
    by (simp add: wf_rel_def)
  show "let s2 = track (computed_target c) GET (KStr ''value'')
                       (computed_update c (\<lambda>r. r\<lparr> c_value := v, c_dirty := False \<rparr>) (leave s1))
            in computed_get (exec n) c s = Some (Returned v, s2)
               \<and> c_value (computeds s2 ! c) = v \<and> \<not> c_dirty (computeds s2 ! c)"
    using a c e eff len
    by (simp add: Let_def computed_get_def computed_read_result computed_update_def)
next
  fix s1
  assume a: "c_dirty (computeds s ! c) \<and> e < length (effects s) \<and> active (effects s ! e)
        \<and> e \<notin> set (effectStack s)"
    and body: "call (exec n) (raw (effects s ! e)) (enter e s) = Some (Thrown, s1)"
  from a body have eff: "reactiveEffect (exec n) e s = Some (Thrown, leave s1)"
    by (simp add: reactiveEffect_body)
  then show "computed_get (exec n) c s = Some (Thrown, leave s1)"
    using a c e by (simp add: computed_get_def)
next
  assume a: "c_dirty (computeds s ! c) \<and> e < length (effects s)
        \<and> (if active (effects s ! e) then e \<in> set (effectStack s)
            else scheduler (effects s ! e) \<noteq> None)"
  then have eff: "reactiveEffect (exec n) e s = Some (Returned VUndef, s)"
    by (auto simp: reactiveEffect_def split: if_splits)
  show "let s2 = track (computed_target c) GET (KStr ''value'')
                    (computed_update c (\<lambda>r. r\<lparr> c_value := VUndef, c_dirty := False \<rparr>) s)
         in computed_get (exec n) c s = Some (Returned VUndef, s2)
            \<and> c_value (computeds s2 ! c) = VUndef \<and> \<not> c_dirty (computeds s2 ! c)"
    using a c e eff
    by (simp add: Let_def computed_get_def computed_read_result computed_update_def)
next
  assume "\<not> c_dirty (computeds s ! c)"
  with c show "computed_get (exec n) c s =
          Some (Returned (c_value (computeds s ! c)), track (computed_target c) GET (KStr ''value'') s)"
    by (simp add: computed_get_def computed_read_result)
next
  fix v s'
  assume "computed_get (exec n) c s = Some (Returned v, s')"
  from computed_get_Returned [OF this] obtain s0 where
    "computed_read c s0 = Some (Returned v, s')" by blast
  then have r: "v = c_value (computeds s0 ! c)" "s' = track (computed_target c) GET (KStr ''value'') s0"
    by (simp_all add: computed_read_result)
  show "\<exists>s0. s' = track (computed_target c) GET (KStr ''value'') s0" using r by blast
  show "c_value (computeds s' ! c) = v" using r by simp
next
  assume "e < length (effects s) \<and> scheduler (effects s ! e) = Some (SchedComputed c)"
  with c show "run (exec (Suc n)) e s =
          (if c_dirty (computeds s ! c) then Some (Next, s\<lparr> trace := trace s @ [EvSched e] \<rparr>)
           else trigger (exec n) (computed_target c) SET (Some (KStr ''value'')) VUndef
                  (computed_update c (\<lambda>r. r\<lparr> c_dirty := True \<rparr>)
                     (s\<lparr> trace := trace s @ [EvSched e] \<rparr>)))"
    by (simp add: computed_scheduler_run)
qed

theorem computed_value_cached_witness:
  "0 < length (computeds s_comp) \<and> c_effect (computeds s_comp ! 0) = 0
   \<and> c_dirty (computeds s_comp ! 0) \<and> 0 < length (effects s_comp) \<and> active (effects s_comp ! 0)
   \<and> 0 \<notin> set (effectStack s_comp)
   \<and> outcome (call (exec 3) (raw (effects s_comp ! 0)) (enter 0 s_comp))
       = Some (Returned (VNum (Fin 42)))
   \<and> outcome (computed_get (exec 3) 0 s_comp) = Some (Returned (VNum (Fin 42)))
   \<and> c_value (computeds s_comp_read ! 0) = VNum (Fin 42) \<and> \<not> c_dirty (computeds s_comp_read ! 0)
   \<and> (\<exists>s0. s_comp_read = track (computed_target 0) GET (KStr ''value'') s0)
   \<and> trace s_comp_read = [EvRun 0, EvTrack 0 o1 kx]
   \<and> computed_get (exec 3) 0 s_comp_read
       = Some (Returned (VNum (Fin 42)), track (computed_target 0) GET (KStr ''value'') s_comp_read)
   \<and> trace (track (computed_target 0) GET (KStr ''value'') s_comp_read) = trace s_comp_read
   \<and> scheduler (effects s_comp_read ! 0) = Some (SchedComputed 0)
   \<and> run (exec (Suc 1)) 0 s_comp_read
       = trigger (exec 1) (computed_target 0) SET (Some (KStr ''value'')) VUndef
           (computed_update 0 (\<lambda>r. r\<lparr> c_dirty := True \<rparr>)
              (s_comp_read\<lparr> trace := trace s_comp_read @ [EvSched 0] \<rparr>))
   \<and> c_dirty (computeds (final (trigger (exec 3) o1 SET (Some kx) VUndef s_comp_read)) ! 0)
   \<and> drop (length (trace s_cons)) (trace (final (trigger (exec 5) o1 SET (Some kx) VUndef s_cons)))
       = [EvSched 0, EvRun 1, EvRun 0, EvTrack 0 o1 kx, EvTrack 1 (computed_target 0) (KStr ''value'')]
   \<and> 0 < length (computeds s_comp_stopped) \<and> c_effect (computeds s_comp_stopped ! 0) = 0
   \<and> c_dirty (computeds s_comp_stopped ! 0) \<and> 0 < length (effects s_comp_stopped)
   \<and> \<not> active (effects s_comp_stopped ! 0) \<and> scheduler (effects s_comp_stopped ! 0) \<noteq> None
   \<and> computed_get (exec 3) 0 s_comp_stopped
       = Some (Returned VUndef, track (computed_target 0) GET (KStr ''value'')
           (computed_update 0 (\<lambda>r. r\<lparr> c_value := VUndef, c_dirty := False \<rparr>) s_comp_stopped))"
proof -
  define s1 where "s1 = final (call (exec 3) (raw (effects s_comp ! 0)) (enter 0 s_comp))"
  have h: "0 < length (computeds s_comp)" "c_effect (computeds s_comp ! 0) = 0"
    "c_dirty (computeds s_comp ! 0)" "0 < length (effects s_comp)" "active (effects s_comp ! 0)"
    "0 \<notin> set (effectStack s_comp)" by code_simp+
  have r: "outcome (call (exec 3) (raw (effects s_comp ! 0)) (enter 0 s_comp))
       = Some (Returned (VNum (Fin 42)))" by code_simp
  have body: "call (exec 3) (raw (effects s_comp ! 0)) (enter 0 s_comp)
       = Some (Returned (VNum (Fin 42)), s1)"
    unfolding s1_def by (rule outcome_final [OF r])
  note inst = computed_value_cached [OF h(1,2), where n = 3]
  from inst h(3-6) body
  have A: "computed_get (exec 3) 0 s_comp = Some (Returned (VNum (Fin 42)),
        track (computed_target 0) GET (KStr ''value'')
          (computed_update 0 (\<lambda>r. r\<lparr> c_value := VNum (Fin 42), c_dirty := False \<rparr>) (leave s1)))"
    and B: "c_value (computeds (track (computed_target 0) GET (KStr ''value'')
          (computed_update 0 (\<lambda>r. r\<lparr> c_value := VNum (Fin 42), c_dirty := False \<rparr>) (leave s1))) ! 0)
        = VNum (Fin 42)"
      "\<not> c_dirty (computeds (track (computed_target 0) GET (KStr ''value'')
          (computed_update 0 (\<lambda>r. r\<lparr> c_value := VNum (Fin 42), c_dirty := False \<rparr>) (leave s1))) ! 0)"
    unfolding Let_def by blast+
  from A have f: "s_comp_read = track (computed_target 0) GET (KStr ''value'')
          (computed_update 0 (\<lambda>r. r\<lparr> c_value := VNum (Fin 42), c_dirty := False \<rparr>) (leave s1))"
    by (simp add: s_comp_read_def)
  from A have o: "outcome (computed_get (exec 3) 0 s_comp) = Some (Returned (VNum (Fin 42)))"
    by (simp add: outcome_def)
  from B have 1: "c_value (computeds s_comp_read ! 0) = VNum (Fin 42)" "\<not> c_dirty (computeds s_comp_read ! 0)"
    unfolding f by blast+
  from f have 0: "\<exists>s0. s_comp_read = track (computed_target 0) GET (KStr ''value'') s0" by blast
  have g: "0 < length (computeds s_comp_read)" "c_effect (computeds s_comp_read ! 0) = 0"
    "0 < length (effects s_comp_read)" "scheduler (effects s_comp_read ! 0) = Some (SchedComputed 0)"
    by code_simp+
  from computed_value_cached [OF g(1,2), where n = 3] 1 have 2: "computed_get (exec 3) 0 s_comp_read
       = Some (Returned (VNum (Fin 42)), track (computed_target 0) GET (KStr ''value'') s_comp_read)"
    by simp
  from computed_value_cached [OF g(1,2), where n = 1] 1 g(3,4) have 3: "run (exec (Suc 1)) 0 s_comp_read
       = trigger (exec 1) (computed_target 0) SET (Some (KStr ''value'')) VUndef
           (computed_update 0 (\<lambda>r. r\<lparr> c_dirty := True \<rparr>)
              (s_comp_read\<lparr> trace := trace s_comp_read @ [EvSched 0] \<rparr>))"
    by simp
  have t: "trace s_comp_read = [EvRun 0, EvTrack 0 o1 kx]"
    "trace (track (computed_target 0) GET (KStr ''value'') s_comp_read) = trace s_comp_read"
    "c_dirty (computeds (final (trigger (exec 3) o1 SET (Some kx) VUndef s_comp_read)) ! 0)"
    "drop (length (trace s_cons)) (trace (final (trigger (exec 5) o1 SET (Some kx) VUndef s_cons)))
       = [EvSched 0, EvRun 1, EvRun 0, EvTrack 0 o1 kx, EvTrack 1 (computed_target 0) (KStr ''value'')]"
    by code_simp+
  have st: "0 < length (computeds s_comp_stopped)" "c_effect (computeds s_comp_stopped ! 0) = 0"
    "c_dirty (computeds s_comp_stopped ! 0)" "0 < length (effects s_comp_stopped)"
    "\<not> active (effects s_comp_stopped ! 0)" "scheduler (effects s_comp_stopped ! 0) \<noteq> None"
    by code_simp+
  from computed_value_cached [OF st(1,2), where n = 3] st(3-6)
  have 4: "computed_get (exec 3) 0 s_comp_stopped
       = Some (Returned VUndef, track (computed_target 0) GET (KStr ''value'')
           (computed_update 0 (\<lambda>r. r\<lparr> c_value := VUndef, c_dirty := False \<rparr>) s_comp_stopped))"
    unfolding Let_def by simp
  from h r o 0 1 2 3 g(4) t st 4 show ?thesis by simp
qed

text \<open>
  Claim C6 as it is stated fails for a cell whose effect was stopped: the effect has a
  scheduler, so its invocation returns \<open>undefined\<close> without running the getter, and the
  read stores \<open>undefined\<close> as \<open>_value\<close> and clears \<open>_dirty\<close>.
\<close>

theorem stopped_computed_caches_undefined:
  "c_dirty (computeds s_comp_stopped ! 0)
   \<and> \<not> active (effects s_comp_stopped ! c_effect (computeds s_comp_stopped ! 0))
   \<and> outcome (exec 3 getter42 s_comp_stopped) = Some (Returned (VNum (Fin 42)))
   \<and> outcome (computed_get (exec 3) 0 s_comp_stopped) = Some (Returned VUndef)
   \<and> c_value (computeds (final (computed_get (exec 3) 0 s_comp_stopped)) ! 0) = VUndef
   \<and> \<not> c_dirty (computeds (final (computed_get (exec 3) 0 s_comp_stopped)) ! 0)
   \<and> trace (final (computed_get (exec 3) 0 s_comp_stopped)) = trace s_comp_stopped"
  by code_simp

section \<open>Proofs: refs and the set trap\<close>

lemma ref_set_unchanged:
  "\<not> hasChanged (toRaw v) (r_rawValue (refs w ! i)) \<Longrightarrow> ref_set ex i v w = Some (Next, w)"
  by (simp add: ref_set_def)

lemma mutable_set_falls_through:
  "\<not> isRef (get_prop w target k) \<Longrightarrow>
     createSetter False ex target k v receiver w = Some (Returned VUndef, w)"
  by (simp add: createSetter_def Let_def)


text \<open>
  Claim C7 on the code. \<open>r = ref(p)\<close> for a reactive proxy \<open>p\<close> keeps \<open>p\<close> itself as
  \<open>_rawValue\<close>; the assignment \<open>r.value = p\<close> compares \<open>toRaw(p)\<close> with it, finds a change
  and triggers, although the raw values of the new and the stored value are the same.
\<close>

theorem ref_set_same_proxy_triggers:
  "r_rawValue (refs w_ref ! 0) = VReactive o1
   \<and> toRaw (VReactive o1) = toRaw (r_rawValue (refs w_ref ! 0))
   \<and> woutcome (ref_set (exec 3) 0 (VReactive o1) w_ref) = Some Next
   \<and> trace (rt (wfinal (ref_set (exec 3) 0 (VReactive o1) w_ref)))
       = trace (rt w_ref) @ [EvRun 0, EvTrack 0 (ref_target 0) (KStr ''value'')]"
  by code_simp

section \<open>Proofs: the job of a watcher\<close>






lemma value_changed_NaN: "\<not> value_changed (VNum NaN) (Some (VNum NaN))"
  by (simp add: value_changed_def hasChanged_def)





end
